theory Spec2Isabelle
  imports Complex_Main "HOL-Library.Word" "HOL-Library.Signed_Division"
begin

unbundle bit_operations_syntax

section \<open>The software renderer of LearnC (Renderer/src/renderer.c)\<close>

text \<open>
  The development embeds the platform-independent part of \<^verbatim>\<open>renderer.c\<close>: the pixel
  primitive, the line and triangle rasterizers, the BMP decoder, the vector and matrix
  helpers and the projection of a point to the screen.

  Conventions of the embedding.
  \<^item> A C \<^verbatim>\<open>int\<close> is a HOL \<open>int\<close>. In the line rasterizers and in the BMP decoder every
    result of \<^verbatim>\<open>int\<close> arithmetic is reduced to 32 bits by \<open>wrap32\<close>, which is what the
    compiled program does on overflow. The pixel primitive, the triangle rasterizers
    and the drawing of an image are embedded for the executions in which no \<^verbatim>\<open>int\<close>
    computation overflows.
  \<^item> \<^verbatim>\<open>uint8_t\<close> and \<^verbatim>\<open>uint32_t\<close> are \<open>8 word\<close> and \<open>32 word\<close>.
  \<^item> A \<^verbatim>\<open>float\<close> is the real number it denotes, and every floating-point operation is
    the exact operation followed by a rounding function \<open>rnd\<close>, which is a parameter of
    every function that computes with floats. Infinities and NaN are outside the
    embedding, so a division by a variable is the checked \<open>fdiv\<close>, whose outcome on a zero
    divisor is \<open>DivByZero\<close>. Only the two divisions of \<^verbatim>\<open>renderer_draw_thick_line\<close>,
    which stand directly under its test \<^verbatim>\<open>len == 0\<close>, are written as plain quotients.
  \<^item> The window handles of the \<^verbatim>\<open>Renderer\<close> struct belong to the platform layer and
    are left out of the record.
\<close>

subsection \<open>Data model\<close>

type_synonym u8 = "8 word"
type_synonym u32 = "32 word"
type_synonym rounding = "real \<Rightarrow> real"

record Color =
  col_r :: u8
  col_g :: u8
  col_b :: u8
  col_a :: u8

record Image =
  img_width :: int
  img_height :: int
  pixels :: "u32 list"

record Renderer =
  framebuffer :: "u32 list"
  rend_width :: int
  rend_height :: int
  is_running :: bool

datatype error = DivByZero | NotANumber | MemoryFault

text \<open>The buffer of a renderer made by \<^verbatim>\<open>renderer_init\<close> holds \<open>rend_width * rend_height\<close> pixels.\<close>

definition renderer_wf :: "Renderer \<Rightarrow> bool" where
  "renderer_wf rend \<longleftrightarrow>
     0 \<le> rend_width rend \<and> 0 \<le> rend_height rend \<and>
     length (framebuffer rend) = nat (rend_width rend * rend_height rend)"

subsection \<open>Machine integers\<close>

text \<open>
  The arithmetic of \<^verbatim>\<open>renderer_draw_line\<close>, \<^verbatim>\<open>renderer_draw_thick_line\<close> and
  \<^verbatim>\<open>image_load_bmp\<close> is that of the 32-bit \<^verbatim>\<open>int\<close> with the wrap-around written out:
  \<open>wrap32\<close> reduces a result to the range from \<open>-2\<^sup>3\<^sup>1\<close> to \<open>2\<^sup>3\<^sup>1 - 1\<close>. A loop counter that
  is incremented under a test \<^verbatim>\<open>i < n\<close> or \<^verbatim>\<open>i <= n / 2\<close> cannot overflow and is incremented
  without it.
\<close>

definition wrap32 :: "int \<Rightarrow> int" where
  "wrap32 v = (v + 2 ^ 31) mod 2 ^ 32 - 2 ^ 31"

subsection \<open>Floating point and conversions\<close>

definition f_of_int :: "rounding \<Rightarrow> int \<Rightarrow> real" where
  "f_of_int rnd i = rnd (of_int i)"

definition fadd :: "rounding \<Rightarrow> real \<Rightarrow> real \<Rightarrow> real" where
  "fadd rnd x y = rnd (x + y)"

definition fsub :: "rounding \<Rightarrow> real \<Rightarrow> real \<Rightarrow> real" where
  "fsub rnd x y = rnd (x - y)"

definition fmul :: "rounding \<Rightarrow> real \<Rightarrow> real \<Rightarrow> real" where
  "fmul rnd x y = rnd (x * y)"

definition fdiv :: "rounding \<Rightarrow> real \<Rightarrow> real \<Rightarrow> error + real" where
  "fdiv rnd x y = (if y = 0 then Inl DivByZero else Inr (rnd (x / y)))"

definition fsqrt :: "rounding \<Rightarrow> real \<Rightarrow> real" where
  "fsqrt rnd x = rnd (sqrt x)"

text \<open>The conversion \<^verbatim>\<open>(int)f\<close> discards the fractional part.\<close>

definition c_trunc :: "real \<Rightarrow> int" where
  "c_trunc x = (if 0 \<le> x then \<lfloor>x\<rfloor> else \<lceil>x\<rceil>)"

text \<open>The conversion \<^verbatim>\<open>(uint8_t)f\<close>, defined by C for values whose integral part is in 0..255.\<close>

definition to_u8 :: "real \<Rightarrow> u8" where
  "to_u8 x = word_of_int (c_trunc x)"

subsection \<open>The pixel primitive\<close>

definition renderer_draw_pixel :: "rounding \<Rightarrow> Renderer \<Rightarrow> int \<Rightarrow> int \<Rightarrow> Color \<Rightarrow> Renderer" where
  "renderer_draw_pixel rnd rend x y color =
     (if x < 0 \<or> x \<ge> rend_width rend \<or> y < 0 \<or> y \<ge> rend_height rend then rend
      else
        let index = nat (y * rend_width rend + x);
            pixel = framebuffer rend ! index
        in if col_a color = 255 then
             rend\<lparr>framebuffer := (framebuffer rend)
               [index := push_bit 24 (ucast (col_a color)) OR push_bit 16 (ucast (col_r color))
                         OR push_bit 8 (ucast (col_g color)) OR ucast (col_b color)]\<rparr>
           else
             let dst_r = (ucast (drop_bit 16 pixel AND 0xFF) :: u8);
                 dst_g = (ucast (drop_bit 8 pixel AND 0xFF) :: u8);
                 dst_b = (ucast (pixel AND 0xFF) :: u8);
                 alpha = rnd (real (unat (col_a color)) / 255);
                 r = to_u8 (fadd rnd (fmul rnd (real (unat (col_r color))) alpha)
                                     (fmul rnd (real (unat dst_r)) (fsub rnd 1 alpha)));
                 g = to_u8 (fadd rnd (fmul rnd (real (unat (col_g color))) alpha)
                                     (fmul rnd (real (unat dst_g)) (fsub rnd 1 alpha)));
                 b = to_u8 (fadd rnd (fmul rnd (real (unat (col_b color))) alpha)
                                     (fmul rnd (real (unat dst_b)) (fsub rnd 1 alpha)))
             in rend\<lparr>framebuffer := (framebuffer rend)
                  [index := push_bit 24 255 OR push_bit 16 (ucast r)
                            OR push_bit 8 (ucast g) OR ucast b]\<rparr>)"

subsection \<open>Lines\<close>

text \<open>
  The loop of \<^verbatim>\<open>renderer_draw_line\<close> is \<^verbatim>\<open>while (1)\<close> with one \<^verbatim>\<open>break\<close>; whether it
  ends is a property to prove, so the result is an option and \<open>None\<close> stands for a loop
  that never ends.
\<close>

partial_function (option) draw_line_loop ::
  "rounding \<Rightarrow> Color \<Rightarrow> int \<Rightarrow> int \<Rightarrow> int \<Rightarrow> int \<Rightarrow> int \<Rightarrow> int \<Rightarrow>
   Renderer \<Rightarrow> int \<Rightarrow> int \<Rightarrow> int \<Rightarrow> Renderer option" where
  "draw_line_loop rnd color x2 y2 dx dy sx sy rend x1 y1 err =
     (let rend' = renderer_draw_pixel rnd rend x1 y1 color in
      if x1 = x2 \<and> y1 = y2 then Some rend'
      else
        let e2 = wrap32 (2 * err);
            err' = (if e2 > wrap32 (- dy) then wrap32 (err - dy) else err);
            x1' = (if e2 > wrap32 (- dy) then wrap32 (x1 + sx) else x1);
            err'' = (if e2 < dx then wrap32 (err' + dx) else err');
            y1' = (if e2 < dx then wrap32 (y1 + sy) else y1)
        in draw_line_loop rnd color x2 y2 dx dy sx sy rend' x1' y1' err'')"

declare draw_line_loop.simps [code]

definition renderer_draw_line ::
  "rounding \<Rightarrow> Renderer \<Rightarrow> int \<Rightarrow> int \<Rightarrow> int \<Rightarrow> int \<Rightarrow> Color \<Rightarrow> Renderer option" where
  "renderer_draw_line rnd rend x1 y1 x2 y2 color =
     (let dx = wrap32 \<bar>wrap32 (x2 - x1)\<bar>;
          dy = wrap32 \<bar>wrap32 (y2 - y1)\<bar>;
          sx = (if x1 < x2 then 1 else - 1);
          sy = (if y1 < y2 then 1 else - 1);
          err = wrap32 (dx - dy)
      in draw_line_loop rnd color x2 y2 dx dy sx sy rend x1 y1 err)"

subsection \<open>The BMP decoder\<close>

text \<open>
  A file system maps a name to the bytes of the file; \<^verbatim>\<open>fopen\<close> fails on a name it does
  not map. \<open>fread buf n stream\<close> copies up to \<open>n\<close> bytes of the stream to the front of the
  buffer and returns the buffer with the rest of the stream; where the stream is short
  the buffer keeps what it held. The header fields are read as the source reads them on
  a little-endian machine.

  A pointer to a block is an option: \<open>None\<close> is the null pointer. \<^verbatim>\<open>malloc\<close> is given the
  \<^verbatim>\<open>int\<close> that the source computes and the number \<open>heap\<close> of bytes that the allocator can
  still serve. A negative \<^verbatim>\<open>int\<close> is a size that no allocation can serve once it is
  converted to \<^verbatim>\<open>size_t\<close>, and a request for more than \<open>heap\<close> bytes fails: the result is
  null. A block that is served has indeterminate contents, given by the parameter
  \<open>uninit\<close>. An access through the null pointer or outside a block is the outcome
  \<open>MemoryFault\<close>; so is an \<^verbatim>\<open>fread\<close> that has bytes to copy to the null pointer. The
  \<^verbatim>\<open>Image\<close> struct takes \<open>sizeof_Image\<close> bytes (two \<^verbatim>\<open>int\<close> and a pointer of 8 bytes); the
  source writes its fields without a test, a \<open>MemoryFault\<close> when the struct was not
  served. The image returned for a null pixel block has no pixel.
\<close>

type_synonym filesystem = "string \<rightharpoonup> u8 list"

definition fread :: "u8 list \<Rightarrow> nat \<Rightarrow> u8 list \<Rightarrow> u8 list \<times> u8 list" where
  "fread buf n stream = (take n stream @ drop (min n (length stream)) buf, drop n stream)"

definition le_int32 :: "u8 list \<Rightarrow> nat \<Rightarrow> int" where
  "le_int32 buf i =
     sint ((ucast (buf ! i) OR push_bit 8 (ucast (buf ! (i + 1)))
            OR push_bit 16 (ucast (buf ! (i + 2))) OR push_bit 24 (ucast (buf ! (i + 3)))) :: 32 word)"

definition le_int16 :: "u8 list \<Rightarrow> nat \<Rightarrow> int" where
  "le_int16 buf i = sint ((ucast (buf ! i) OR push_bit 8 (ucast (buf ! (i + 1)))) :: 16 word)"

definition malloc_bytes :: "(nat \<Rightarrow> u32) \<Rightarrow> int \<Rightarrow> int \<Rightarrow> u8 list option" where
  "malloc_bytes uninit heap n =
     (if n < 0 \<or> heap < n then None else Some (map (\<lambda>i. ucast (uninit i)) [0..<nat n]))"

definition malloc_words :: "(nat \<Rightarrow> u32) \<Rightarrow> int \<Rightarrow> int \<Rightarrow> u32 list option" where
  "malloc_words uninit heap n =
     (if n < 0 \<or> heap < 4 * n then None else Some (map uninit [0..<nat n]))"

definition sizeof_Image :: int where
  "sizeof_Image = 16"

definition load_byte :: "u8 list option \<Rightarrow> int \<Rightarrow> error + u8" where
  "load_byte buf i =
     (case buf of
        None \<Rightarrow> Inl MemoryFault
      | Some b \<Rightarrow> if 0 \<le> i \<and> i < int (length b) then Inr (b ! nat i) else Inl MemoryFault)"

definition store_word :: "u32 list option \<Rightarrow> int \<Rightarrow> u32 \<Rightarrow> error + u32 list option" where
  "store_word buf i v =
     (case buf of
        None \<Rightarrow> Inl MemoryFault
      | Some b \<Rightarrow>
          if 0 \<le> i \<and> i < int (length b) then Inr (Some (b[nat i := v])) else Inl MemoryFault)"

definition fread_block ::
  "u8 list option \<Rightarrow> int \<Rightarrow> u8 list \<Rightarrow> error + (u8 list option \<times> u8 list)" where
  "fread_block buf n stream =
     (case buf of
        None \<Rightarrow> if stream = [] then Inr (None, stream) else Inl MemoryFault
      | Some b \<Rightarrow> Inr (Some (fst (fread b (nat n) stream)), snd (fread b (nat n) stream)))"

text \<open>The four reads of one pixel from the row buffer and the word made of them.\<close>

definition bmp_read_pixel :: "int \<Rightarrow> u8 list option \<Rightarrow> int \<Rightarrow> error + u32" where
  "bmp_read_pixel bits_per_pixel row x =
     (case load_byte row (wrap32 (wrap32 (x * (bits_per_pixel sdiv 8)) + 0)) of
        Inl e \<Rightarrow> Inl e
      | Inr b \<Rightarrow>
          (case load_byte row (wrap32 (wrap32 (x * (bits_per_pixel sdiv 8)) + 1)) of
             Inl e \<Rightarrow> Inl e
           | Inr g \<Rightarrow>
               (case load_byte row (wrap32 (wrap32 (x * (bits_per_pixel sdiv 8)) + 2)) of
                  Inl e \<Rightarrow> Inl e
                | Inr r \<Rightarrow>
                    (case (if bits_per_pixel = 32 then load_byte row (wrap32 (wrap32 (x * 4) + 3))
                           else Inr 255) of
                       Inl e \<Rightarrow> Inl e
                     | Inr a \<Rightarrow>
                         Inr (push_bit 24 (ucast a) OR push_bit 16 (ucast r)
                              OR push_bit 8 (ucast g) OR ucast b)))))"

function bmp_pixel_loop ::
  "int \<Rightarrow> int \<Rightarrow> int \<Rightarrow> int \<Rightarrow> u8 list option \<Rightarrow> int \<Rightarrow> int \<Rightarrow> u32 list option \<Rightarrow>
   error + u32 list option" where
  "bmp_pixel_loop bits_per_pixel height iw ih row y x pxs =
     (if x < iw then
        let pixel_index =
              (if height > 0 then wrap32 (wrap32 (wrap32 (wrap32 (ih - 1) - y) * iw) + x)
               else wrap32 (wrap32 (y * iw) + x))
        in case bmp_read_pixel bits_per_pixel row x of
             Inl e \<Rightarrow> Inl e
           | Inr v \<Rightarrow>
               (case store_word pxs pixel_index v of
                  Inl e \<Rightarrow> Inl e
                | Inr pxs' \<Rightarrow> bmp_pixel_loop bits_per_pixel height iw ih row y (x + 1) pxs')
      else Inr pxs)"
  by pat_completeness auto
termination
  by (relation "measure (\<lambda>(bits_per_pixel, height, iw, ih, row, y, x, pxs). nat (iw - x))") auto

declare bmp_pixel_loop.simps [simp del]

function bmp_row_loop ::
  "int \<Rightarrow> int \<Rightarrow> int \<Rightarrow> int \<Rightarrow> int \<Rightarrow> int \<Rightarrow> u32 list option \<Rightarrow> u8 list option \<Rightarrow> u8 list \<Rightarrow>
   error + u32 list option" where
  "bmp_row_loop bits_per_pixel height iw ih row_size y pxs row stream =
     (if y < ih then
        case fread_block row row_size stream of
          Inl e \<Rightarrow> Inl e
        | Inr rs \<Rightarrow>
            (case bmp_pixel_loop bits_per_pixel height iw ih (fst rs) y 0 pxs of
               Inl e \<Rightarrow> Inl e
             | Inr pxs' \<Rightarrow>
                 bmp_row_loop bits_per_pixel height iw ih row_size (y + 1) pxs' (fst rs) (snd rs))
      else Inr pxs)"
  by pat_completeness auto
termination
  by (relation "measure (\<lambda>(bits_per_pixel, height, iw, ih, row_size, y, pxs, row, stream).
                  nat (ih - y))") auto

declare bmp_row_loop.simps [simp del]

definition read_header :: "(nat \<Rightarrow> u32) \<Rightarrow> u8 list \<Rightarrow> u8 list \<times> u8 list" where
  "read_header uninit bytes = fread (map (\<lambda>i. ucast (uninit i)) [0..<54]) 54 bytes"

definition image_load_bmp ::
  "(nat \<Rightarrow> u32) \<Rightarrow> int \<Rightarrow> filesystem \<Rightarrow> string \<Rightarrow> error + Image option" where
  "image_load_bmp uninit heap fs filename =
     (case fs filename of
        None \<Rightarrow> Inr None
      | Some bytes \<Rightarrow>
          let header = fst (read_header uninit bytes);
              stream = snd (read_header uninit bytes)
          in if header ! 0 \<noteq> 0x42 \<or> header ! 1 \<noteq> 0x4D then Inr None
             else
               let width = le_int32 header 18;
                   height = le_int32 header 22;
                   bits_per_pixel = le_int16 header 28
               in if bits_per_pixel \<noteq> 24 \<and> bits_per_pixel \<noteq> 32 then Inr None
                  else if heap < sizeof_Image then Inl MemoryFault
                  else
                    let iw = width;
                        ih = wrap32 \<bar>height\<bar>;
                        heap1 = heap - sizeof_Image;
                        pxs = malloc_words uninit heap1 (wrap32 (iw * ih));
                        heap2 = (case pxs of None \<Rightarrow> heap1
                                 | Some p \<Rightarrow> heap1 - 4 * int (length p));
                        row_size = wrap32 (wrap32 (wrap32 (bits_per_pixel * width) + 31) sdiv 32 * 4);
                        row = malloc_bytes uninit heap2 row_size
                    in case bmp_row_loop bits_per_pixel height iw ih row_size 0 pxs row stream of
                         Inl e \<Rightarrow> Inl e
                       | Inr pxs' \<Rightarrow>
                           Inr (Some \<lparr>img_width = iw, img_height = ih,
                                      pixels = (case pxs' of None \<Rightarrow> [] | Some p \<Rightarrow> p)\<rparr>))"

subsection \<open>Drawing an image\<close>

text \<open>An \<^verbatim>\<open>Image*\<close> argument is an option: \<open>None\<close> is the null pointer.\<close>

definition color_of_pixel :: "u32 \<Rightarrow> Color" where
  "color_of_pixel pixel =
     \<lparr>col_r = ucast (drop_bit 16 pixel AND 0xFF), col_g = ucast (drop_bit 8 pixel AND 0xFF),
      col_b = ucast (pixel AND 0xFF), col_a = ucast (drop_bit 24 pixel AND 0xFF)\<rparr>"

function draw_image_cols ::
  "rounding \<Rightarrow> Image \<Rightarrow> int \<Rightarrow> int \<Rightarrow> int \<Rightarrow> int \<Rightarrow> Renderer \<Rightarrow> Renderer" where
  "draw_image_cols rnd img x y j i rend =
     (if i < img_width img then
        let pixel = pixels img ! nat (j * img_width img + i);
            color = color_of_pixel pixel
        in draw_image_cols rnd img x y j (i + 1) (renderer_draw_pixel rnd rend (x + i) (y + j) color)
      else rend)"
  by pat_completeness auto
termination
  by (relation "measure (\<lambda>(rnd, img, x, y, j, i, rend). nat (img_width img - i))") auto

declare draw_image_cols.simps [simp del]

function draw_image_rows ::
  "rounding \<Rightarrow> Image \<Rightarrow> int \<Rightarrow> int \<Rightarrow> int \<Rightarrow> Renderer \<Rightarrow> Renderer" where
  "draw_image_rows rnd img x y j rend =
     (if j < img_height img then
        draw_image_rows rnd img x y (j + 1) (draw_image_cols rnd img x y j 0 rend)
      else rend)"
  by pat_completeness auto
termination
  by (relation "measure (\<lambda>(rnd, img, x, y, j, rend). nat (img_height img - j))") auto

declare draw_image_rows.simps [simp del]

definition renderer_draw_image ::
  "rounding \<Rightarrow> Renderer \<Rightarrow> Image option \<Rightarrow> int \<Rightarrow> int \<Rightarrow> Renderer" where
  "renderer_draw_image rnd rend img x y =
     (case img of None \<Rightarrow> rend | Some im \<Rightarrow> draw_image_rows rnd im x y 0 rend)"

subsection \<open>Filled triangles\<close>

function filled_triangle_span ::
  "rounding \<Rightarrow> Color \<Rightarrow> int \<Rightarrow> int \<Rightarrow> int \<Rightarrow> Renderer \<Rightarrow> Renderer" where
  "filled_triangle_span rnd color y xb x rend =
     (if x \<le> xb then
        filled_triangle_span rnd color y xb (x + 1) (renderer_draw_pixel rnd rend x y color)
      else rend)"
  by pat_completeness auto
termination
  by (relation "measure (\<lambda>(rnd, color, y, xb, x, rend). nat (xb + 1 - x))") auto

declare filled_triangle_span.simps [simp del]

function filled_triangle_rows ::
  "rounding \<Rightarrow> Color \<Rightarrow> int \<Rightarrow> int \<Rightarrow> int \<Rightarrow> int \<Rightarrow> int \<Rightarrow> int \<Rightarrow> int \<Rightarrow> int \<Rightarrow>
   Renderer \<Rightarrow> error + Renderer" where
  "filled_triangle_rows rnd color x1 y1 x2 y2 x3 y3 total_height y rend =
     (if y \<le> y3 then
        let second_half = (y > y2 \<or> y2 = y1);
            segment_height = (if second_half then y3 - y2 else y2 - y1)
        in if segment_height = 0 then
             filled_triangle_rows rnd color x1 y1 x2 y2 x3 y3 total_height (y + 1) rend
           else
             case fdiv rnd (f_of_int rnd (y - y1)) (f_of_int rnd total_height) of
               Inl e \<Rightarrow> Inl e
             | Inr alpha \<Rightarrow>
                 (case fdiv rnd (f_of_int rnd (y - (if second_half then y2 else y1)))
                         (f_of_int rnd segment_height) of
                    Inl e \<Rightarrow> Inl e
                  | Inr beta \<Rightarrow>
                      let xa = c_trunc (fadd rnd (f_of_int rnd x1)
                                          (fmul rnd (f_of_int rnd (x3 - x1)) alpha));
                          xb = (if second_half
                                then c_trunc (fadd rnd (f_of_int rnd x2)
                                                (fmul rnd (f_of_int rnd (x3 - x2)) beta))
                                else c_trunc (fadd rnd (f_of_int rnd x1)
                                                (fmul rnd (f_of_int rnd (x2 - x1)) beta)));
                          xa' = (if xa > xb then xb else xa);
                          xb' = (if xa > xb then xa else xb)
                      in filled_triangle_rows rnd color x1 y1 x2 y2 x3 y3 total_height (y + 1)
                           (filled_triangle_span rnd color y xb' xa' rend))
      else Inr rend)"
  by pat_completeness auto
termination
  by (relation "measure (\<lambda>(rnd, color, x1, y1, x2, y2, x3, y3, total_height, y, rend).
                  nat (y3 + 1 - y))") auto

declare filled_triangle_rows.simps [simp del]

definition renderer_draw_filled_triangle ::
  "rounding \<Rightarrow> Renderer \<Rightarrow> int \<Rightarrow> int \<Rightarrow> int \<Rightarrow> int \<Rightarrow> int \<Rightarrow> int \<Rightarrow> Color \<Rightarrow>
   error + Renderer" where
  "renderer_draw_filled_triangle rnd rend x1 y1 x2 y2 x3 y3 color =
     (let (x1, y1, x2, y2) = (if y1 > y2 then (x2, y2, x1, y1) else (x1, y1, x2, y2));
          (x1, y1, x3, y3) = (if y1 > y3 then (x3, y3, x1, y1) else (x1, y1, x3, y3));
          (x2, y2, x3, y3) = (if y2 > y3 then (x3, y3, x2, y2) else (x2, y2, x3, y3));
          total_height = y3 - y1
      in if total_height = 0 then Inr rend
         else filled_triangle_rows rnd color x1 y1 x2 y2 x3 y3 total_height y1 rend)"

subsection \<open>Thick lines\<close>

text \<open>
  The sum \<^verbatim>\<open>dx*dx + dy*dy\<close> is an \<^verbatim>\<open>int\<close> and can wrap around to a negative number, of
  which \<^verbatim>\<open>sqrtf\<close> is NaN: the outcome \<open>NotANumber\<close>. The two divisions by \<open>len\<close> stand
  directly under the source's test \<^verbatim>\<open>len == 0\<close>, which the embedding keeps in front of
  them. The result is \<open>None\<close> when a call of \<open>renderer_draw_line\<close> never returns.
\<close>

function thick_line_loop ::
  "rounding \<Rightarrow> Color \<Rightarrow> int \<Rightarrow> int \<Rightarrow> int \<Rightarrow> int \<Rightarrow> int \<Rightarrow> int \<Rightarrow> Renderer \<Rightarrow>
   (error + Renderer) option" where
  "thick_line_loop rnd color x1 y1 x2 y2 thickness t rend =
     (if t \<le> thickness sdiv 2 then
        let dx = wrap32 (y2 - y1);
            dy = wrap32 (x2 - x1);
            sq = wrap32 (wrap32 (dx * dx) + wrap32 (dy * dy))
        in if sq < 0 then Some (Inl NotANumber)
           else
             let len = fsqrt rnd (f_of_int rnd sq)
             in if len = 0 then thick_line_loop rnd color x1 y1 x2 y2 thickness (t + 1) rend
                else
                  let ox = c_trunc (rnd (f_of_int rnd (wrap32 (t * dx)) / len));
                      oy = c_trunc (rnd (f_of_int rnd (wrap32 (wrap32 (- t) * dy)) / len))
                  in case renderer_draw_line rnd rend (wrap32 (x1 + ox)) (wrap32 (y1 + oy))
                            (wrap32 (x2 + ox)) (wrap32 (y2 + oy)) color of
                       None \<Rightarrow> None
                     | Some rend' \<Rightarrow>
                         thick_line_loop rnd color x1 y1 x2 y2 thickness (t + 1) rend'
      else Some (Inr rend))"
  by pat_completeness auto
termination
  by (relation "measure (\<lambda>(rnd, color, x1, y1, x2, y2, thickness, t, rend).
                  nat (thickness sdiv 2 + 1 - t))") auto

declare thick_line_loop.simps [simp del]

definition renderer_draw_thick_line ::
  "rounding \<Rightarrow> Renderer \<Rightarrow> int \<Rightarrow> int \<Rightarrow> int \<Rightarrow> int \<Rightarrow> int \<Rightarrow> Color \<Rightarrow>
   (error + Renderer) option" where
  "renderer_draw_thick_line rnd rend x1 y1 x2 y2 thickness color =
     thick_line_loop rnd color x1 y1 x2 y2 thickness (wrap32 (- thickness) sdiv 2) rend"

subsection \<open>Textured triangles\<close>

text \<open>
  The integer remainder \<^verbatim>\<open>%\<close> of C truncates (\<open>smod\<close>) and traps on a zero divisor, which
  is the outcome \<open>DivByZero\<close> as well.
\<close>

function textured_triangle_span ::
  "rounding \<Rightarrow> Image \<Rightarrow> int \<Rightarrow> int \<Rightarrow> int \<Rightarrow> real \<Rightarrow> real \<Rightarrow> real \<Rightarrow> real \<Rightarrow> int \<Rightarrow>
   Renderer \<Rightarrow> error + Renderer" where
  "textured_triangle_span rnd texture y xa xb ua va ub vb x rend =
     (if x \<le> xb then
        case (if xb - xa > 0 then fdiv rnd (f_of_int rnd (x - xa)) (f_of_int rnd (xb - xa))
              else Inr 0) of
          Inl e \<Rightarrow> Inl e
        | Inr t \<Rightarrow>
            let u = fadd rnd ua (fmul rnd (fsub rnd ub ua) t);
                v = fadd rnd va (fmul rnd (fsub rnd vb va) t)
            in if img_width texture = 0 \<or> img_height texture = 0 then Inl DivByZero
               else
                 let tex_x = c_trunc (fmul rnd u (f_of_int rnd (img_width texture)))
                               smod img_width texture;
                     tex_y = c_trunc (fmul rnd v (f_of_int rnd (img_height texture)))
                               smod img_height texture;
                     tex_x' = (if tex_x < 0 then tex_x + img_width texture else tex_x);
                     tex_y' = (if tex_y < 0 then tex_y + img_height texture else tex_y);
                     pixel = pixels texture ! nat (tex_y' * img_width texture + tex_x');
                     color = color_of_pixel pixel
                 in textured_triangle_span rnd texture y xa xb ua va ub vb (x + 1)
                      (renderer_draw_pixel rnd rend x y color)
      else Inr rend)"
  by pat_completeness auto
termination
  by (relation "measure (\<lambda>(rnd, texture, y, xa, xb, ua, va, ub, vb, x, rend). nat (xb + 1 - x))")
     auto

declare textured_triangle_span.simps [simp del]

function textured_triangle_rows ::
  "rounding \<Rightarrow> Image \<Rightarrow> int \<times> int \<times> real \<times> real \<Rightarrow> int \<times> int \<times> real \<times> real \<Rightarrow>
   int \<times> int \<times> real \<times> real \<Rightarrow> int \<Rightarrow> int \<Rightarrow> Renderer \<Rightarrow> error + Renderer" where
  "textured_triangle_rows rnd texture (x1, y1, u1, v1) (x2, y2, u2, v2) (x3, y3, u3, v3)
     total_height y rend =
     (if y \<le> y3 then
        let second_half = (y > y2 \<or> y2 = y1);
            segment_height = (if second_half then y3 - y2 else y2 - y1)
        in if segment_height = 0 then
             textured_triangle_rows rnd texture (x1, y1, u1, v1) (x2, y2, u2, v2) (x3, y3, u3, v3)
               total_height (y + 1) rend
           else
             case fdiv rnd (f_of_int rnd (y - y1)) (f_of_int rnd total_height) of
               Inl e \<Rightarrow> Inl e
             | Inr alpha \<Rightarrow>
                 (case fdiv rnd (f_of_int rnd (y - (if second_half then y2 else y1)))
                         (f_of_int rnd segment_height) of
                    Inl e \<Rightarrow> Inl e
                  | Inr beta \<Rightarrow>
                      let xa = c_trunc (fadd rnd (f_of_int rnd x1)
                                          (fmul rnd (f_of_int rnd (x3 - x1)) alpha));
                          xb = (if second_half
                                then c_trunc (fadd rnd (f_of_int rnd x2)
                                                (fmul rnd (f_of_int rnd (x3 - x2)) beta))
                                else c_trunc (fadd rnd (f_of_int rnd x1)
                                                (fmul rnd (f_of_int rnd (x2 - x1)) beta)));
                          ua = fadd rnd u1 (fmul rnd (fsub rnd u3 u1) alpha);
                          va = fadd rnd v1 (fmul rnd (fsub rnd v3 v1) alpha);
                          ub = (if second_half then fadd rnd u2 (fmul rnd (fsub rnd u3 u2) beta)
                                else fadd rnd u1 (fmul rnd (fsub rnd u2 u1) beta));
                          vb = (if second_half then fadd rnd v2 (fmul rnd (fsub rnd v3 v2) beta)
                                else fadd rnd v1 (fmul rnd (fsub rnd v2 v1) beta));
                          swap = (xa > xb)
                      in case textured_triangle_span rnd texture y
                                (if swap then xb else xa) (if swap then xa else xb)
                                (if swap then ub else ua) (if swap then vb else va)
                                (if swap then ua else ub) (if swap then va else vb)
                                (if swap then xb else xa) rend of
                           Inl e \<Rightarrow> Inl e
                         | Inr rend' \<Rightarrow>
                             textured_triangle_rows rnd texture (x1, y1, u1, v1) (x2, y2, u2, v2)
                               (x3, y3, u3, v3) total_height (y + 1) rend')
      else Inr rend)"
  by pat_completeness auto
termination
  by (relation "measure (\<lambda>(rnd, texture, p1, (x2, y2, u2, v2), (x3, y3, u3, v3), total_height, y, rend).
                  nat (y3 + 1 - y))") auto

declare textured_triangle_rows.simps [simp del]

definition renderer_draw_textured_triangle ::
  "rounding \<Rightarrow> Renderer \<Rightarrow> int \<Rightarrow> int \<Rightarrow> int \<Rightarrow> int \<Rightarrow> int \<Rightarrow> int \<Rightarrow>
   real \<Rightarrow> real \<Rightarrow> real \<Rightarrow> real \<Rightarrow> real \<Rightarrow> real \<Rightarrow> Image option \<Rightarrow> error + Renderer" where
  "renderer_draw_textured_triangle rnd rend x1 y1 x2 y2 x3 y3 u1 v1 u2 v2 u3 v3 texture =
     (case texture of
        None \<Rightarrow> Inr rend
      | Some tex \<Rightarrow>
          let p1 = (x1, y1, u1, v1); p2 = (x2, y2, u2, v2); p3 = (x3, y3, u3, v3);
              (p1, p2) = (if fst (snd p1) > fst (snd p2) then (p2, p1) else (p1, p2));
              (p1, p3) = (if fst (snd p1) > fst (snd p3) then (p3, p1) else (p1, p3));
              (p2, p3) = (if fst (snd p2) > fst (snd p3) then (p3, p2) else (p2, p3));
              total_height = fst (snd p3) - fst (snd p1)
          in if total_height = 0 then Inr rend
             else textured_triangle_rows rnd tex p1 p2 p3 total_height (fst (snd p1)) rend)"

subsection \<open>Vectors, matrices and projection\<close>

record Vec3 =
  vec_x :: real
  vec_y :: real
  vec_z :: real

type_synonym Mat4 = "real list list"

definition vec3_make :: "real \<Rightarrow> real \<Rightarrow> real \<Rightarrow> Vec3" where
  "vec3_make x y z = \<lparr>vec_x = x, vec_y = y, vec_z = z\<rparr>"

definition vec3_normalize :: "rounding \<Rightarrow> Vec3 \<Rightarrow> error + Vec3" where
  "vec3_normalize rnd v =
     (let len = fsqrt rnd (fadd rnd (fadd rnd (fmul rnd (vec_x v) (vec_x v))
                                              (fmul rnd (vec_y v) (vec_y v)))
                                    (fmul rnd (vec_z v) (vec_z v)))
      in if len = 0 then Inr (vec3_make 0 0 0)
         else
           case fdiv rnd (vec_x v) len of
             Inl e \<Rightarrow> Inl e
           | Inr x \<Rightarrow>
               (case fdiv rnd (vec_y v) len of
                  Inl e \<Rightarrow> Inl e
                | Inr y \<Rightarrow>
                    (case fdiv rnd (vec_z v) len of
                       Inl e \<Rightarrow> Inl e
                     | Inr z \<Rightarrow> Inr (vec3_make x y z))))"

definition mat4_set :: "Mat4 \<Rightarrow> nat \<Rightarrow> nat \<Rightarrow> real \<Rightarrow> Mat4" where
  "mat4_set m i j v = m[i := (m ! i)[j := v]]"

definition mat4_identity :: Mat4 where
  "mat4_identity =
     mat4_set (mat4_set (mat4_set (mat4_set (replicate 4 (replicate 4 0)) 3 3 1) 2 2 1) 1 1 1) 0 0 1"

definition mat4_mul_vec3 :: "rounding \<Rightarrow> Mat4 \<Rightarrow> Vec3 \<Rightarrow> real \<Rightarrow> error + Vec3" where
  "mat4_mul_vec3 rnd m v w =
     (let x = fadd rnd (fadd rnd (fadd rnd (fmul rnd (m ! 0 ! 0) (vec_x v))
                  (fmul rnd (m ! 1 ! 0) (vec_y v))) (fmul rnd (m ! 2 ! 0) (vec_z v)))
                  (fmul rnd (m ! 3 ! 0) w);
          y = fadd rnd (fadd rnd (fadd rnd (fmul rnd (m ! 0 ! 1) (vec_x v))
                  (fmul rnd (m ! 1 ! 1) (vec_y v))) (fmul rnd (m ! 2 ! 1) (vec_z v)))
                  (fmul rnd (m ! 3 ! 1) w);
          z = fadd rnd (fadd rnd (fadd rnd (fmul rnd (m ! 0 ! 2) (vec_x v))
                  (fmul rnd (m ! 1 ! 2) (vec_y v))) (fmul rnd (m ! 2 ! 2) (vec_z v)))
                  (fmul rnd (m ! 3 ! 2) w);
          ww = fadd rnd (fadd rnd (fadd rnd (fmul rnd (m ! 0 ! 3) (vec_x v))
                  (fmul rnd (m ! 1 ! 3) (vec_y v))) (fmul rnd (m ! 2 ! 3) (vec_z v)))
                  (fmul rnd (m ! 3 ! 3) w)
      in if ww \<noteq> 0 then
           case fdiv rnd x ww of
             Inl e \<Rightarrow> Inl e
           | Inr x' \<Rightarrow>
               (case fdiv rnd y ww of
                  Inl e \<Rightarrow> Inl e
                | Inr y' \<Rightarrow>
                    (case fdiv rnd z ww of
                       Inl e \<Rightarrow> Inl e
                     | Inr z' \<Rightarrow> Inr \<lparr>vec_x = x', vec_y = y', vec_z = z'\<rparr>))
         else Inr \<lparr>vec_x = x, vec_y = y, vec_z = z\<rparr>)"

text \<open>
  \<open>renderer_project_point\<close> returns the three values that the source stores through its
  pointer arguments: the screen column, the screen row and the depth.
\<close>

definition renderer_project_point ::
  "rounding \<Rightarrow> Renderer \<Rightarrow> Vec3 \<Rightarrow> Mat4 \<Rightarrow> error + (int \<times> int \<times> real)" where
  "renderer_project_point rnd rend point transform =
     (case mat4_mul_vec3 rnd transform point 1 of
        Inl e \<Rightarrow> Inl e
      | Inr projected \<Rightarrow>
          Inr (c_trunc (fmul rnd (fmul rnd (fadd rnd (vec_x projected) 1) (1 / 2))
                          (f_of_int rnd (rend_width rend))),
               c_trunc (fmul rnd (fmul rnd (fsub rnd 1 (vec_y projected)) (1 / 2))
                          (f_of_int rnd (rend_height rend))),
               vec_z projected))"

subsection \<open>Notions used to state and prove the theorems\<close>

text \<open>
  \<open>stored_pixel\<close> is the value that \<open>renderer_draw_pixel\<close> writes over a pixel,
  \<open>draw_pixels\<close> draws a list of points in order, \<open>draw_lines\<close> draws a list of lines in
  order, and
  \<open>thick_line_copy\<close> is the \<open>k\<close>-th line of \<open>renderer_draw_thick_line\<close>: the base line moved
  by the integral parts of \<open>k * (y2 - y1) / len\<close> and \<open>- k * (x2 - x1) / len\<close>.
\<close>

definition stored_pixel :: "rounding \<Rightarrow> Color \<Rightarrow> u32 \<Rightarrow> u32" where
  "stored_pixel rnd color pixel =
     (if col_a color = 255 then
        push_bit 24 (ucast (col_a color)) OR push_bit 16 (ucast (col_r color))
          OR push_bit 8 (ucast (col_g color)) OR ucast (col_b color)
      else
        let dst_r = (ucast (drop_bit 16 pixel AND 0xFF) :: u8);
            dst_g = (ucast (drop_bit 8 pixel AND 0xFF) :: u8);
            dst_b = (ucast (pixel AND 0xFF) :: u8);
            alpha = rnd (real (unat (col_a color)) / 255);
            r = to_u8 (fadd rnd (fmul rnd (real (unat (col_r color))) alpha)
                                (fmul rnd (real (unat dst_r)) (fsub rnd 1 alpha)));
            g = to_u8 (fadd rnd (fmul rnd (real (unat (col_g color))) alpha)
                                (fmul rnd (real (unat dst_g)) (fsub rnd 1 alpha)));
            b = to_u8 (fadd rnd (fmul rnd (real (unat (col_b color))) alpha)
                                (fmul rnd (real (unat dst_b)) (fsub rnd 1 alpha)))
        in push_bit 24 255 OR push_bit 16 (ucast r) OR push_bit 8 (ucast g) OR ucast b)"

definition draw_pixels :: "rounding \<Rightarrow> Color \<Rightarrow> (int \<times> int) list \<Rightarrow> Renderer \<Rightarrow> Renderer" where
  "draw_pixels rnd color pts rend =
     fold (\<lambda>p r. renderer_draw_pixel rnd r (fst p) (snd p) color) pts rend"

fun draw_lines ::
  "rounding \<Rightarrow> Color \<Rightarrow> (int \<times> int \<times> int \<times> int) list \<Rightarrow> Renderer \<Rightarrow> Renderer option" where
  "draw_lines rnd color [] rend = Some rend"
| "draw_lines rnd color ((xa, ya, xb, yb) # ls) rend =
     (case renderer_draw_line rnd rend xa ya xb yb color of
        None \<Rightarrow> None
      | Some rend' \<Rightarrow> draw_lines rnd color ls rend')"

definition thick_line_copy ::
  "rounding \<Rightarrow> int \<Rightarrow> int \<Rightarrow> int \<Rightarrow> int \<Rightarrow> int \<Rightarrow> int \<times> int \<times> int \<times> int" where
  "thick_line_copy rnd x1 y1 x2 y2 k =
     (let len = fsqrt rnd (f_of_int rnd ((y2 - y1) * (y2 - y1) + (x2 - x1) * (x2 - x1)));
          ox = c_trunc (rnd (f_of_int rnd (k * (y2 - y1)) / len));
          oy = c_trunc (rnd (f_of_int rnd (- k * (x2 - x1)) / len))
      in (x1 + ox, y1 + oy, x2 + ox, y2 + oy))"

text \<open>
  \<open>bmp_pixel24 bytes off\<close> is the pixel that a 24-bit BMP stores at offset \<open>off\<close>: the
  bytes B, G, R in this order, with the alpha channel 255. \<open>bmp_corners\<close> is a 2 by 2
  24-bit BMP file, 70 bytes, whose rows are padded to 8 bytes: the bottom row (stored
  first) is blue, white and the top row is red, green.
\<close>

definition bmp_pixel24 :: "u8 list \<Rightarrow> nat \<Rightarrow> u32" where
  "bmp_pixel24 bytes off =
     push_bit 24 255 OR push_bit 16 (ucast (bytes ! (off + 2)))
       OR push_bit 8 (ucast (bytes ! (off + 1))) OR ucast (bytes ! off)"

definition bmp_corners :: "u8 list" where
  "bmp_corners =
     [0x42, 0x4D, 70, 0, 0, 0, 0, 0, 0, 0, 54, 0, 0, 0,
      40, 0, 0, 0, 2, 0, 0, 0, 2, 0, 0, 0, 1, 0, 24, 0,
      0, 0, 0, 0, 16, 0, 0, 0, 0, 0, 0, 0, 0, 0, 0, 0, 0, 0, 0, 0, 0, 0, 0, 0,
      255, 0, 0, 255, 255, 255, 0, 0,
      0, 0, 255, 0, 255, 0, 0, 0]"

subsection \<open>The screen mapping as the specification words it\<close>

text \<open>
  The specification gives the mapping from normalized device coordinates to the screen
  as \<open>screenX = (ndcX + 1) * 0.5 * width\<close> and \<open>screenY = (1 - ndcY) * 0.5 * height\<close>. These
  two definitions follow those words, in exact arithmetic, to be compared with
  \<open>renderer_project_point\<close>.
\<close>

definition screen_x_spec :: "real \<Rightarrow> int \<Rightarrow> real" where
  "screen_x_spec ndcX w = (ndcX + 1) * 0.5 * real_of_int w"

definition screen_y_spec :: "real \<Rightarrow> int \<Rightarrow> real" where
  "screen_y_spec ndcY h = (1 - ndcY) * 0.5 * real_of_int h"

subsection \<open>The path of a line\<close>

text \<open>
  \<open>line_pixels\<close> is the path of a line in closed form. Along the longer extent there is
  one pixel for each step \<open>k\<close>; across it the pixel stands at \<open>half_down\<close>, the integer
  nearest to \<open>k\<close> times the slope, where a half is rounded down: toward the endpoint
  that the line starts from.
\<close>

definition half_down :: "int \<Rightarrow> int \<Rightarrow> int \<Rightarrow> int" where
  "half_down dx dy a = (2 * a * dy + dx - 1) div (2 * dx)"

definition line_pixels :: "int \<Rightarrow> int \<Rightarrow> int \<Rightarrow> int \<Rightarrow> (int \<times> int) list" where
  "line_pixels x1 y1 x2 y2 =
     (let dx = \<bar>x2 - x1\<bar>;
          dy = \<bar>y2 - y1\<bar>;
          sx = (if x1 < x2 then 1 else - 1);
          sy = (if y1 < y2 then 1 else - 1)
      in if dy \<le> dx then map (\<lambda>k. (x1 + sx * k, y1 + sy * half_down dx dy k)) [0..dx]
         else map (\<lambda>k. (x1 + sx * half_down dy dx k, y1 + sy * k)) [0..dy])"

text \<open>
  \<open>line_in_range\<close> holds of the endpoints for which no computation of
  \<^verbatim>\<open>renderer_draw_line\<close> leaves the 32-bit \<^verbatim>\<open>int\<close>: each coordinate is such an \<^verbatim>\<open>int\<close>, and the
  extents in columns and in rows are at most \<open>2\<^sup>2\<^sup>9\<close>.
\<close>

definition int32_range :: "int \<Rightarrow> bool" where
  "int32_range v \<longleftrightarrow> - (2 ^ 31) \<le> v \<and> v < 2 ^ 31"

definition line_in_range :: "int \<Rightarrow> int \<Rightarrow> int \<Rightarrow> int \<Rightarrow> bool" where
  "line_in_range x1 y1 x2 y2 \<longleftrightarrow>
     int32_range x1 \<and> int32_range y1 \<and> int32_range x2 \<and> int32_range y2 \<and>
     \<bar>x2 - x1\<bar> \<le> 2 ^ 29 \<and> \<bar>y2 - y1\<bar> \<le> 2 ^ 29"

text \<open>
  \<open>line_symmetric\<close> holds of the lines on which no step falls on a half: the endpoints
  are equal, or the longer extent divided by the greatest common divisor of the two
  extents is odd.
\<close>

definition line_symmetric :: "int \<Rightarrow> int \<Rightarrow> int \<Rightarrow> int \<Rightarrow> bool" where
  "line_symmetric x1 y1 x2 y2 \<longleftrightarrow>
     (let dx = \<bar>x2 - x1\<bar>; dy = \<bar>y2 - y1\<bar>
      in (dx = 0 \<and> dy = 0) \<or> odd (max dx dy div gcd dx dy))"

subsection \<open>Files and outcomes of the BMP decoder\<close>

text \<open>
  \<open>bmp_pixel bpp row x\<close> is the pixel that a row of a BMP with \<open>bpp\<close> bits per pixel stores
  at column \<open>x\<close>: the bytes B, G, R and, with 32 bits, A; with 24 bits the alpha channel
  is 255.
\<close>

definition bmp_pixel :: "int \<Rightarrow> u8 list \<Rightarrow> int \<Rightarrow> u32" where
  "bmp_pixel bpp row x =
     push_bit 24 (ucast (if bpp = 32 then row ! nat (x * 4 + 3) else 255))
       OR push_bit 16 (ucast (row ! nat (x * (bpp sdiv 8) + 2)))
       OR push_bit 8 (ucast (row ! nat (x * (bpp sdiv 8) + 1)))
       OR ucast (row ! nat (x * (bpp sdiv 8)))"





definition bmp_corners_gap :: "u8 list" where
  "bmp_corners_gap =
     [0x42, 0x4D, 74, 0, 0, 0, 0, 0, 0, 0, 58, 0, 0, 0,
      40, 0, 0, 0, 2, 0, 0, 0, 2, 0, 0, 0, 1, 0, 24, 0,
      0, 0, 0, 0, 16, 0, 0, 0, 0, 0, 0, 0, 0, 0, 0, 0, 0, 0, 0, 0, 0, 0, 0, 0,
      0xAA, 0xBB, 0xCC, 0xDD,
      255, 0, 0, 255, 255, 255, 0, 0,
      0, 0, 255, 0, 255, 0, 0, 0]"

section \<open>Theorems\<close>

subsection \<open>Auxiliary facts\<close>

lemma fdiv_nz: "y \<noteq> 0 \<Longrightarrow> fdiv rnd x y = Inr (rnd (x / y))"
  by (simp add: fdiv_def)

lemma index_in_bounds:
  assumes "0 \<le> x" "x < w" "0 \<le> y" "y < h"
  shows "nat (y * w + x) < nat (w * h)"
proof -
  have "y * w + x < y * w + w" using assms by simp
  also have "\<dots> = (y + 1) * w" by (simp add: algebra_simps)
  also have "\<dots> \<le> h * w" using assms by (intro mult_right_mono) auto
  finally have "y * w + x < w * h" by (simp add: mult.commute)
  moreover have "0 \<le> y * w + x" using assms by simp
  ultimately show ?thesis by simp
qed

lemma c_trunc_between:
  assumes "of_int n \<le> v" "v < of_int n + 1" "0 \<le> n"
  shows "c_trunc v = n"
proof -
  have "0 \<le> v" using assms by (meson of_int_0_le_iff order_trans)
  moreover have "\<lfloor>v\<rfloor> = n" using assms by (simp add: floor_unique)
  ultimately show ?thesis by (simp add: c_trunc_def)
qed

lemma c_trunc_half: "c_trunc (real_of_int w / 2) = w sdiv 2"
proof (cases "0 \<le> w")
  case True
  have "\<lfloor>real_of_int w / 2\<rfloor> = w div 2"
    using floor_divide_of_int_eq[of w 2] by simp
  moreover have "w sdiv 2 = w div 2"
    using True by (cases "w = 0") (simp_all add: signed_divide_int_def)
  ultimately show ?thesis using True by (simp add: c_trunc_def)
next
  case False
  have "\<lceil>real_of_int w / 2\<rceil> = - \<lfloor>real_of_int (- w) / 2\<rfloor>"
    by (simp add: ceiling_def)
  also have "\<dots> = - ((- w) div 2)"
    using floor_divide_of_int_eq[of "- w" 2] by simp
  finally have "\<lceil>real_of_int w / 2\<rceil> = - ((- w) div 2)" .
  moreover have "w sdiv 2 = - ((- w) div 2)"
    using False by (simp add: signed_divide_int_def)
  ultimately show ?thesis using False by (simp add: c_trunc_def)
qed

lemma index_inj:
  assumes "0 \<le> x" "x < w" "0 \<le> y" "0 \<le> x'" "x' < w" "0 \<le> y'" "(x, y) \<noteq> (x', y')"
  shows "nat (y * w + x) \<noteq> nat (y' * w + x')"
proof
  assume "nat (y * w + x) = nat (y' * w + x')"
  moreover have "0 \<le> y * w + x" "0 \<le> y' * w + x'" using assms by simp_all
  ultimately have e: "y * w + x = y' * w + x'" by simp
  have "y = y'"
  proof (rule ccontr)
    assume "y \<noteq> y'"
    then consider "y + 1 \<le> y'" | "y' + 1 \<le> y" by linarith
    then show False
    proof cases
      case 1
      then have "(y + 1) * w \<le> y' * w" using assms by (intro mult_right_mono) auto
      with e assms show False by (simp add: algebra_simps)
    next
      case 2
      then have "(y' + 1) * w \<le> y * w" using assms by (intro mult_right_mono) auto
      with e assms show False by (simp add: algebra_simps)
    qed
  qed
  with e assms show False by simp
qed

lemma c_trunc_of_int: "c_trunc (of_int k) = k"
  by (simp add: c_trunc_def)

lemma c_trunc_numerals: "c_trunc 0 = 0" "c_trunc 1 = 1" "c_trunc (- 1) = - 1"
  using c_trunc_of_int[of 0] c_trunc_of_int[of 1] c_trunc_of_int[of "- 1"] by simp_all

subsection \<open>The pixel primitive\<close>

lemma draw_pixel_in_bounds:
  assumes "0 \<le> x" "x < rend_width rend" "0 \<le> y" "y < rend_height rend"
  shows "renderer_draw_pixel rnd rend x y color =
           rend\<lparr>framebuffer := (framebuffer rend)
             [nat (y * rend_width rend + x) :=
                stored_pixel rnd color (framebuffer rend ! nat (y * rend_width rend + x))]\<rparr>"
  using assms by (simp add: renderer_draw_pixel_def stored_pixel_def Let_def)

lemma draw_pixel_out:
  assumes "x < 0 \<or> rend_width rend \<le> x \<or> y < 0 \<or> rend_height rend \<le> y"
  shows "renderer_draw_pixel rnd rend x y color = rend"
  using assms by (auto simp: renderer_draw_pixel_def)

lemma draw_pixel_dims [simp]:
  "rend_width (renderer_draw_pixel rnd rend x y color) = rend_width rend"
  "rend_height (renderer_draw_pixel rnd rend x y color) = rend_height rend"
  by (simp_all add: renderer_draw_pixel_def Let_def)

lemma draw_pixel_commute:
  "renderer_draw_pixel rnd (renderer_draw_pixel rnd rend x y color) x' y' color
   = renderer_draw_pixel rnd (renderer_draw_pixel rnd rend x' y' color) x y color"
proof (cases "(x, y) = (x', y')")
  case True
  then show ?thesis by simp
next
  case False
  show ?thesis
  proof (cases "x < 0 \<or> rend_width rend \<le> x \<or> y < 0 \<or> rend_height rend \<le> y")
    case True
    then show ?thesis by (simp add: draw_pixel_out)
  next
    case inb: False
    show ?thesis
    proof (cases "x' < 0 \<or> rend_width rend \<le> x' \<or> y' < 0 \<or> rend_height rend \<le> y'")
      case True
      then show ?thesis by (simp add: draw_pixel_out)
    next
      case inb': False
      have ne: "nat (y * rend_width rend + x) \<noteq> nat (y' * rend_width rend + x')"
        using inb inb' False by (intro index_inj) auto
      have 1: "renderer_draw_pixel rnd rend x y color =
           rend\<lparr>framebuffer := (framebuffer rend)
             [nat (y * rend_width rend + x) :=
                stored_pixel rnd color (framebuffer rend ! nat (y * rend_width rend + x))]\<rparr>"
        using inb by (intro draw_pixel_in_bounds) auto
      have 2: "renderer_draw_pixel rnd rend x' y' color =
           rend\<lparr>framebuffer := (framebuffer rend)
             [nat (y' * rend_width rend + x') :=
                stored_pixel rnd color (framebuffer rend ! nat (y' * rend_width rend + x'))]\<rparr>"
        using inb' by (intro draw_pixel_in_bounds) auto
      have 3: "renderer_draw_pixel rnd (renderer_draw_pixel rnd rend x y color) x' y' color =
           (renderer_draw_pixel rnd rend x y color)\<lparr>framebuffer :=
              (framebuffer (renderer_draw_pixel rnd rend x y color))
             [nat (y' * rend_width rend + x') :=
                stored_pixel rnd color (framebuffer (renderer_draw_pixel rnd rend x y color)
                   ! nat (y' * rend_width rend + x'))]\<rparr>"
        using inb' draw_pixel_in_bounds[of x' "renderer_draw_pixel rnd rend x y color" y' rnd color]
        by simp
      have 4: "renderer_draw_pixel rnd (renderer_draw_pixel rnd rend x' y' color) x y color =
           (renderer_draw_pixel rnd rend x' y' color)\<lparr>framebuffer :=
              (framebuffer (renderer_draw_pixel rnd rend x' y' color))
             [nat (y * rend_width rend + x) :=
                stored_pixel rnd color (framebuffer (renderer_draw_pixel rnd rend x' y' color)
                   ! nat (y * rend_width rend + x))]\<rparr>"
        using inb draw_pixel_in_bounds[of x "renderer_draw_pixel rnd rend x' y' color" y rnd color]
        by simp
      show ?thesis
        unfolding 3 4 unfolding 1 2 using ne ne[symmetric]
        by (simp add: list_update_swap)
    qed
  qed
qed

lemma draw_pixels_rev: "draw_pixels rnd color (rev pts) rend = draw_pixels rnd color pts rend"
  unfolding draw_pixels_def
  by (rule fold_rev[THEN fun_cong]) (simp add: fun_eq_iff draw_pixel_commute)

text \<open>
  C1. A call of \<open>renderer_draw_pixel\<close> with \<open>(x, y)\<close> outside
  \<open>[0, width) \<times> [0, height)\<close> returns the renderer as it was, for every renderer state
  and every color: no pixel of the framebuffer changes, and nothing else does.
\<close>

theorem draw_pixel_out_of_bounds:
  assumes "x < 0 \<or> rend_width rend \<le> x \<or> y < 0 \<or> rend_height rend \<le> y"
  shows "renderer_draw_pixel rnd rend x y color = rend"
  using assms by (auto simp: renderer_draw_pixel_def)

theorem draw_pixel_out_of_bounds_witness:
  "renderer_draw_pixel (\<lambda>v. v)
     \<lparr>framebuffer = [7, 7, 7, 7], rend_width = 2, rend_height = 2, is_running = True\<rparr> 2 0
     \<lparr>col_r = 255, col_g = 0, col_b = 0, col_a = 128\<rparr>
   = \<lparr>framebuffer = [7, 7, 7, 7], rend_width = 2, rend_height = 2, is_running = True\<rparr>"
  using draw_pixel_out_of_bounds
    [of 2 "\<lparr>framebuffer = [7, 7, 7, 7], rend_width = 2, rend_height = 2, is_running = True\<rparr>" 0
        "\<lambda>v. v" "\<lparr>col_r = 255, col_g = 0, col_b = 0, col_a = 128\<rparr>"]
  by simp


lemma blended_red_bounds:
  fixes rnd :: rounding
  assumes rel: "\<forall>v. 1 / 4 \<le> v \<and> v \<le> 256 \<longrightarrow> \<bar>rnd v - v\<bar> \<le> v / 2 ^ 10"
  shows "127 \<le> rnd (rnd (255 * rnd (128 / 255)))" "rnd (rnd (255 * rnd (128 / 255))) < 129"
proof -
  define a where "a = rnd (128 / 255)"
  define b where "b = rnd (255 * a)"
  define c where "c = rnd b"
  have "\<bar>a - 128 / 255\<bar> \<le> (128 / 255) / 2 ^ 10"
    unfolding a_def by (rule rel[rule_format]) simp
  then have "\<bar>a - 128 / 255\<bar> \<le> (128 / 255) / 1024" by simp
  then have a1: "1277 / 2550 \<le> a" "a \<le> 1283 / 2550" by linarith+
  have "\<bar>b - 255 * a\<bar> \<le> (255 * a) / 2 ^ 10"
    unfolding b_def by (rule rel[rule_format]) (use a1 in simp)
  then have "\<bar>b - 255 * a\<bar> \<le> (255 * a) / 1024" by simp
  with a1 have b1: "1275 / 10 \<le> b" "b \<le> 1285 / 10" by linarith+
  have "\<bar>c - b\<bar> \<le> b / 2 ^ 10"
    unfolding c_def by (rule rel[rule_format]) (use b1 in simp)
  then have "\<bar>c - b\<bar> \<le> b / 1024" by simp
  with b1 have "127 \<le> c" "c < 129" by linarith+
  then show "127 \<le> rnd (rnd (255 * rnd (128 / 255)))" "rnd (rnd (255 * rnd (128 / 255))) < 129"
    by (simp_all add: a_def b_def c_def)
qed

lemma blended_red_channel:
  fixes rnd :: rounding
  assumes rel: "\<forall>v. 1 / 4 \<le> v \<and> v \<le> 256 \<longrightarrow> \<bar>rnd v - v\<bar> \<le> v / 2 ^ 10"
  shows "c_trunc (rnd (rnd (255 * rnd (128 / 255)))) \<in> {127, 128}"
proof -
  let ?c = "rnd (rnd (255 * rnd (128 / 255)))"
  note bd = blended_red_bounds[OF rel]
  show ?thesis
  proof (cases "?c < 128")
    case True
    then have "c_trunc ?c = 127" using bd by (intro c_trunc_between) simp_all
    then show ?thesis by simp
  next
    case False
    then have "c_trunc ?c = 128" using bd by (intro c_trunc_between) simp_all
    then show ?thesis by simp
  qed
qed

text \<open>
  C4. Drawing the color \<open>{255, 0, 0, 128}\<close> at an in-bounds \<open>(x, y)\<close> whose pixel stores
  the RGB value \<open>{0, 0, 0}\<close> leaves a pixel whose alpha byte is exactly 255, whose green
  and blue channels are 0 and whose red channel is 127 or 128, that is 128 within one
  unit. This holds for every rounding that keeps 0 and has a relative error of at most
  \<open>2\<^sup>-\<^sup>1\<^sup>0\<close> on the values between 1/4 and 256, which covers single-precision arithmetic
  (relative error \<open>2\<^sup>-\<^sup>2\<^sup>4\<close>).
\<close>

theorem draw_pixel_blend_half_red:
  assumes wf: "renderer_wf rend"
    and inb: "0 \<le> x" "x < rend_width rend" "0 \<le> y" "y < rend_height rend"
    and black: "drop_bit 16 (framebuffer rend ! nat (y * rend_width rend + x)) AND 0xFF = 0"
               "drop_bit 8 (framebuffer rend ! nat (y * rend_width rend + x)) AND 0xFF = 0"
               "framebuffer rend ! nat (y * rend_width rend + x) AND 0xFF = 0"
    and z: "rnd 0 = 0"
    and rel: "\<forall>v. 1 / 4 \<le> v \<and> v \<le> 256 \<longrightarrow> \<bar>rnd v - v\<bar> \<le> v / 2 ^ 10"
  shows "let p = framebuffer (renderer_draw_pixel rnd rend x y
                   \<lparr>col_r = 255, col_g = 0, col_b = 0, col_a = 128\<rparr>) ! nat (y * rend_width rend + x)
         in drop_bit 24 p = 255 \<and> drop_bit 16 p AND 0xFF \<in> {127, 128} \<and>
            drop_bit 8 p AND 0xFF = 0 \<and> p AND 0xFF = 0"
proof -
  have len: "nat (y * rend_width rend + x) < length (framebuffer rend)"
    using wf inb index_in_bounds[of x "rend_width rend" y "rend_height rend"]
    by (simp add: renderer_wf_def)
  let ?r = "to_u8 (rnd (rnd (255 * rnd (128 / 255))))"
  have p: "framebuffer (renderer_draw_pixel rnd rend x y
                   \<lparr>col_r = 255, col_g = 0, col_b = 0, col_a = 128\<rparr>) ! nat (y * rend_width rend + x)
      = push_bit 24 255 OR push_bit 16 (ucast ?r)"
    using inb len black z
    by (simp add: renderer_draw_pixel_def Let_def fadd_def fmul_def fsub_def to_u8_def c_trunc_def)
  from blended_red_channel[OF rel] have "?r = 127 \<or> ?r = 128"
    by (auto simp: to_u8_def)
  then show ?thesis
    unfolding Let_def p by (elim disjE) simp_all
qed

theorem draw_pixel_blend_half_red_witness:
  "let p = framebuffer (renderer_draw_pixel (\<lambda>v. v)
                   \<lparr>framebuffer = [0xFF000000, 0xFF123456], rend_width = 2, rend_height = 1,
                      is_running = True\<rparr> 0 0
                   \<lparr>col_r = 255, col_g = 0, col_b = 0, col_a = 128\<rparr>) ! 0
   in drop_bit 24 p = 255 \<and> drop_bit 16 p AND 0xFF \<in> {127, 128} \<and>
      drop_bit 8 p AND 0xFF = 0 \<and> p AND 0xFF = 0"
  using draw_pixel_blend_half_red
    [of "\<lparr>framebuffer = [0xFF000000, 0xFF123456], rend_width = 2, rend_height = 1,
           is_running = True\<rparr>" 0 0 "\<lambda>v. v"]
  by (simp add: renderer_wf_def)

subsection \<open>Filled triangles\<close>

lemma filled_triangle_rows_total:
  assumes nz: "\<forall>k::int. k \<noteq> 0 \<longrightarrow> rnd (of_int k) \<noteq> 0" and th: "total_height \<noteq> 0"
  shows "\<exists>r. filled_triangle_rows rnd color x1 y1 x2 y2 x3 y3 total_height y rend = Inr r"
  using assms
proof (induction rnd color x1 y1 x2 y2 x3 y3 total_height y rend rule: filled_triangle_rows.induct)
  case (1 rnd color x1 y1 x2 y2 x3 y3 total_height y rend)
  have nzf: "\<And>k. k \<noteq> 0 \<Longrightarrow> f_of_int rnd k \<noteq> 0"
    using "1.prems"(1) by (simp add: f_of_int_def)
  show ?case
  proof (cases "y \<le> y3")
    case False
    then show ?thesis by (subst filled_triangle_rows.simps) simp
  next
    case True
    show ?thesis
      apply (subst filled_triangle_rows.simps)
      using True "1.IH" "1.prems" nzf
      apply (simp add: Let_def fdiv_nz)
      done
  qed
qed

text \<open>
  C2. \<open>renderer_draw_filled_triangle\<close> never divides by zero: for every three vertices
  and every color it returns a renderer and never the outcome \<open>DivByZero\<close>, provided the
  conversion of a nonzero \<^verbatim>\<open>int\<close> to \<^verbatim>\<open>float\<close> is nonzero. When the three vertices are
  one point, the renderer returned is the renderer given: nothing is drawn.
\<close>

theorem filled_triangle_no_division_by_zero:
  assumes "\<forall>k::int. k \<noteq> 0 \<longrightarrow> rnd (of_int k) \<noteq> 0"
  shows "(\<exists>r. renderer_draw_filled_triangle rnd rend x1 y1 x2 y2 x3 y3 color = Inr r) \<and>
         renderer_draw_filled_triangle rnd rend px py px py px py color = Inr rend"
proof
  show "\<exists>r. renderer_draw_filled_triangle rnd rend x1 y1 x2 y2 x3 y3 color = Inr r"
    unfolding renderer_draw_filled_triangle_def
    by (simp add: Let_def filled_triangle_rows_total[OF assms] split: prod.splits)
  show "renderer_draw_filled_triangle rnd rend px py px py px py color = Inr rend"
    by (simp add: renderer_draw_filled_triangle_def)
qed

theorem filled_triangle_no_division_by_zero_witness:
  "(\<exists>r. renderer_draw_filled_triangle (\<lambda>v. v)
      \<lparr>framebuffer = [0, 0, 0, 0], rend_width = 2, rend_height = 2, is_running = True\<rparr>
      0 0 1 0 0 1 \<lparr>col_r = 255, col_g = 0, col_b = 0, col_a = 255\<rparr> = Inr r) \<and>
   renderer_draw_filled_triangle (\<lambda>v. v)
      \<lparr>framebuffer = [0, 0, 0, 0], rend_width = 2, rend_height = 2, is_running = True\<rparr>
      1 1 1 1 1 1 \<lparr>col_r = 255, col_g = 0, col_b = 0, col_a = 255\<rparr>
    = Inr \<lparr>framebuffer = [0, 0, 0, 0], rend_width = 2, rend_height = 2, is_running = True\<rparr>"
  using filled_triangle_no_division_by_zero
    [of "\<lambda>v. v" "\<lparr>framebuffer = [0, 0, 0, 0], rend_width = 2, rend_height = 2, is_running = True\<rparr>"
      0 0 1 0 0 1 "\<lparr>col_r = 255, col_g = 0, col_b = 0, col_a = 255\<rparr>" 1 1]
  by simp

subsection \<open>Drawing with a null image\<close>

text \<open>
  C10. \<open>renderer_draw_image\<close> and \<open>renderer_draw_textured_triangle\<close> called with a null
  image return the renderer unchanged, framebuffer and all other state, for every
  renderer and all coordinate and texture arguments.
\<close>

theorem draw_null_image_noop:
  "renderer_draw_image rnd rend None x y = rend \<and>
   renderer_draw_textured_triangle rnd rend x1 y1 x2 y2 x3 y3 u1 v1 u2 v2 u3 v3 None = Inr rend"
  by (simp add: renderer_draw_image_def renderer_draw_textured_triangle_def)

subsection \<open>Vectors and projection\<close>

text \<open>
  C8. \<open>vec3_normalize\<close> of the zero vector is the zero vector, for every rounding that
  keeps zero, and for every vector and rounding it returns a vector and never the
  outcome \<open>DivByZero\<close>.
\<close>

theorem vec3_normalize_zero:
  assumes "rnd 0 = 0"
  shows "vec3_normalize rnd (vec3_make 0 0 0) = Inr (vec3_make 0 0 0) \<and>
         (\<exists>r. vec3_normalize rnd' v = Inr r)"
  using assms
  by (simp add: vec3_normalize_def vec3_make_def fsqrt_def fadd_def fmul_def fdiv_def Let_def)

theorem vec3_normalize_zero_witness:
  "vec3_normalize (\<lambda>v. v) (vec3_make 0 0 0) = Inr (vec3_make 0 0 0) \<and>
   (\<exists>r. vec3_normalize (\<lambda>v. v) (vec3_make 3 0 4) = Inr r)"
  using vec3_normalize_zero [of "\<lambda>v. v" "\<lambda>v. v" "vec3_make 3 0 4"] by simp

lemma mat4_identity_nth:
  "mat4_identity ! 0 = [1, 0, 0, 0]" "mat4_identity ! 1 = [0, 1, 0, 0]"
  "mat4_identity ! 2 = [0, 0, 1, 0]" "mat4_identity ! 3 = [0, 0, 0, 1]"
  by (simp_all add: mat4_identity_def mat4_set_def numeral_eq_Suc)

lemma mat4_identity_origin:
  assumes "rnd 0 = 0" "rnd 1 = 1"
  shows "mat4_mul_vec3 rnd mat4_identity (vec3_make 0 0 0) 1 = Inr (vec3_make 0 0 0)"
  using assms
  by (simp add: mat4_mul_vec3_def mat4_identity_nth vec3_make_def fadd_def fmul_def fdiv_def Let_def)

subsection \<open>Lines\<close>

lemma wrap32_id: "- (2 ^ 31) \<le> v \<Longrightarrow> v < 2 ^ 31 \<Longrightarrow> wrap32 v = v"
  by (simp add: wrap32_def)

lemma half_down_unique:
  assumes "0 < dx" "- dx \<le> 2 * (b * dx - a * dy)" "2 * (b * dx - a * dy) < dx"
  shows "half_down dx dy a = b"
  unfolding half_down_def
proof (rule int_div_pos_eq)
  show "2 * a * dy + dx - 1 = 2 * dx * b + (2 * a * dy + dx - 1 - 2 * dx * b)" by simp
  show "0 \<le> 2 * a * dy + dx - 1 - 2 * dx * b" using assms by (simp add: algebra_simps)
  show "2 * a * dy + dx - 1 - 2 * dx * b < 2 * dx" using assms by (simp add: algebra_simps)
qed

lemma half_down_bounds:
  assumes "0 < dx"
  shows "- dx \<le> 2 * (half_down dx dy a * dx - a * dy)"
    and "2 * (half_down dx dy a * dx - a * dy) < dx"
proof -
  let ?N = "2 * a * dy + dx - 1"
  have m: "0 \<le> ?N mod (2 * dx)" "?N mod (2 * dx) < 2 * dx" using assms by simp_all
  have e: "?N = 2 * dx * half_down dx dy a + ?N mod (2 * dx)"
    by (simp add: half_down_def)
  have p: "2 * dx * half_down dx dy a = 2 * (half_down dx dy a * dx)" by simp
  show "- dx \<le> 2 * (half_down dx dy a * dx - a * dy)"
    using m e unfolding p by (simp add: algebra_simps)
  show "2 * (half_down dx dy a * dx - a * dy) < dx"
    using m e unfolding p by (simp add: algebra_simps)
qed

lemma half_down_end: "0 < dx \<Longrightarrow> half_down dx dy dx = dy"
  by (rule half_down_unique) (simp_all add: algebra_simps)

lemma half_down_0: "0 < dx \<Longrightarrow> half_down dx dy 0 = 0"
  by (rule half_down_unique) simp_all

lemma half_down_diag: "0 < dx \<Longrightarrow> half_down dx dx a = a"
  by (rule half_down_unique) (simp_all add: algebra_simps)

lemma half_down_mono:
  assumes "0 < dx" "0 \<le> dy" "a \<le> a'"
  shows "half_down dx dy a \<le> half_down dx dy a'"
  unfolding half_down_def
proof (rule zdiv_mono1)
  have "a * dy \<le> a' * dy" using assms by (intro mult_right_mono) auto
  then show "2 * a * dy + dx - 1 \<le> 2 * a' * dy + dx - 1" by simp
  show "0 < 2 * dx" using assms by simp
qed

lemma half_down_range:
  assumes "0 < dx" "0 \<le> dy" "0 \<le> a" "a \<le> dx"
  shows "0 \<le> half_down dx dy a" "half_down dx dy a \<le> dy"
  using half_down_mono[OF assms(1,2,3)] half_down_mono[OF assms(1,2,4)] assms(1)
  by (simp_all add: half_down_0 half_down_end)

lemma draw_line_loop_stop:
  "draw_line_loop rnd color x2 y2 dx dy sx sy rend x2 y2 err =
     Some (renderer_draw_pixel rnd rend x2 y2 color)"
  by (subst draw_line_loop.simps) (simp add: Let_def)

lemma draw_line_loop_step:
  assumes "x1 \<noteq> x2 \<or> y1 \<noteq> y2"
    and "- (2 ^ 31) \<le> 2 * err" "2 * err < 2 ^ 31"
    and "0 \<le> dy" "dy \<le> 2 ^ 29" "0 \<le> dx" "dx \<le> 2 ^ 29"
    and "cx \<longleftrightarrow> 2 * err > - dy" "cy \<longleftrightarrow> 2 * err < dx"
    and "- (2 ^ 31) \<le> x1 + sx \<and> x1 + sx < 2 ^ 31 \<or> \<not> cx"
    and "- (2 ^ 31) \<le> y1 + sy \<and> y1 + sy < 2 ^ 31 \<or> \<not> cy"
  shows "draw_line_loop rnd color x2 y2 dx dy sx sy rend x1 y1 err =
         draw_line_loop rnd color x2 y2 dx dy sx sy (renderer_draw_pixel rnd rend x1 y1 color)
           (if cx then x1 + sx else x1) (if cy then y1 + sy else y1)
           (err - (if cx then dy else 0) + (if cy then dx else 0))"
proof -
  have w1: "wrap32 (2 * err) = 2 * err" using assms(2,3) by (rule wrap32_id)
  have w2: "wrap32 (- dy) = - dy" using assms(4,5) by (intro wrap32_id) simp_all
  have w3: "wrap32 (err - dy) = err - dy" using assms(2-5) by (intro wrap32_id) simp_all
  have w4: "wrap32 (err + dx) = err + dx" using assms(2,3,6,7) by (intro wrap32_id) simp_all
  have w5: "wrap32 (err - dy + dx) = err - dy + dx" using assms(2-7) by (intro wrap32_id) simp_all
  have w6: "cx \<Longrightarrow> wrap32 (x1 + sx) = x1 + sx" using assms(10) by (intro wrap32_id) simp_all
  have w7: "cy \<Longrightarrow> wrap32 (y1 + sy) = y1 + sy" using assms(11) by (intro wrap32_id) simp_all
  have ne: "(x1 = x2 \<and> y1 = y2) = False" using assms(1) by auto
  show ?thesis
    apply (subst draw_line_loop.simps)
    using w6 w7
    apply (simp add: Let_def ne w1 w2 w3 w4 w5 assms(8,9)[symmetric])
    done
qed

lemma draw_line_loop_shallow:
  assumes dx: "0 < dx" "dx \<le> 2 ^ 29" and dy: "0 \<le> dy" "dy \<le> dx"
    and s: "sx = 1 \<or> sx = - 1" "sy = 1 \<or> sy = - 1"
    and rx: "- (2 ^ 31) \<le> xs" "xs < 2 ^ 31" "- (2 ^ 31) \<le> xs + sx * dx" "xs + sx * dx < 2 ^ 31"
    and ry: "- (2 ^ 31) \<le> ys" "ys < 2 ^ 31" "- (2 ^ 31) \<le> ys + sy * dy" "ys + sy * dy < 2 ^ 31"
    and a: "0 \<le> a" "a \<le> dx"
  shows "draw_line_loop rnd color (xs + sx * dx) (ys + sy * dy) dx dy sx sy rend
           (xs + sx * a) (ys + sy * half_down dx dy a)
           (dx - dy + half_down dx dy a * dx - a * dy)
         = Some (draw_pixels rnd color
                   (map (\<lambda>k. (xs + sx * k, ys + sy * half_down dx dy k)) [a..dx]) rend)"
  using a
proof (induction "nat (dx - a)" arbitrary: a rend)
  case 0
  then have "a = dx" by simp
  then show ?case
    using dx(1) by (simp add: half_down_end draw_line_loop_stop draw_pixels_def)
next
  case (Suc n)
  then have lt: "a < dx" by linarith
  define b where "b = half_down dx dy a"
  define D where "D = b * dx - a * dy"
  define err where "err = dx - dy + D"
  have bD: "- dx \<le> 2 * D" "2 * D < dx"
    unfolding D_def b_def by (rule half_down_bounds[OF dx(1)])+
  define cy where "cy \<longleftrightarrow> 2 * err < dx"
  have cx: "2 * err > - dy"
  proof (cases "dy = dx")
    case True
    then have "D = 0" using dx(1) by (simp add: D_def b_def half_down_diag)
    then show ?thesis using True dx(1) by (simp add: err_def)
  next
    case False
    then show ?thesis using bD dy by (simp add: err_def)
  qed
  define b' where "b' = (if cy then b + 1 else b)"
  have b': "half_down dx dy (a + 1) = b'"
  proof (rule half_down_unique[OF dx(1)])
    have e: "b' * dx - (a + 1) * dy = D - dy + (if cy then dx else 0)"
      by (simp add: b'_def D_def algebra_simps)
    show "- dx \<le> 2 * (b' * dx - (a + 1) * dy)"
      unfolding e using bD dy by (simp add: cy_def err_def)
    show "2 * (b' * dx - (a + 1) * dy) < dx"
      unfolding e using bD dy by (simp add: cy_def err_def)
  qed
  have brange: "0 \<le> b" "b \<le> dy" "0 \<le> b'" "b' \<le> dy"
    using half_down_range[OF dx(1) dy(1), of a] half_down_range[OF dx(1) dy(1), of "a + 1"]
      Suc.prems lt by (simp_all add: b_def b')
  have xr: "- (2 ^ 31) \<le> xs + sx * k \<and> xs + sx * k < 2 ^ 31" if "0 \<le> k" "k \<le> dx" for k
    using s(1) rx that by auto
  have yr: "- (2 ^ 31) \<le> ys + sy * k \<and> ys + sy * k < 2 ^ 31" if "0 \<le> k" "k \<le> dy" for k
    using s(2) ry that by auto
  have ne: "xs + sx * a \<noteq> xs + sx * dx \<or> ys + sy * b \<noteq> ys + sy * dy"
    using lt s(1) by auto
  have step: "draw_line_loop rnd color (xs + sx * dx) (ys + sy * dy) dx dy sx sy rend
           (xs + sx * a) (ys + sy * b) err =
         draw_line_loop rnd color (xs + sx * dx) (ys + sy * dy) dx dy sx sy
           (renderer_draw_pixel rnd rend (xs + sx * a) (ys + sy * b) color)
           (if True then xs + sx * a + sx else xs + sx * a)
           (if cy then ys + sy * b + sy else ys + sy * b)
           (err - (if True then dy else 0) + (if cy then dx else 0))"
  proof (rule draw_line_loop_step[OF ne])
    show "- (2 ^ 31) \<le> 2 * err" "2 * err < 2 ^ 31"
      using bD dx dy by (simp_all add: err_def)
    show "0 \<le> dy" "dy \<le> 2 ^ 29" "0 \<le> dx" "dx \<le> 2 ^ 29" using dx dy by simp_all
    show "True \<longleftrightarrow> 2 * err > - dy" using cx by simp
    show "cy \<longleftrightarrow> 2 * err < dx" by (simp add: cy_def)
    show "- (2 ^ 31) \<le> xs + sx * a + sx \<and> xs + sx * a + sx < 2 ^ 31 \<or> \<not> True"
      using xr[of "a + 1"] Suc.prems lt by (simp add: algebra_simps)
    show "- (2 ^ 31) \<le> ys + sy * b + sy \<and> ys + sy * b + sy < 2 ^ 31 \<or> \<not> cy"
      using yr[of "b + 1"] brange by (auto simp: b'_def algebra_simps split: if_splits)
  qed
  have args: "xs + sx * a + sx = xs + sx * (a + 1)"
    "(if cy then ys + sy * b + sy else ys + sy * b) = ys + sy * half_down dx dy (a + 1)"
    "err - dy + (if cy then dx else 0) = dx - dy + half_down dx dy (a + 1) * dx - (a + 1) * dy"
    unfolding b' by (cases cy; simp add: b'_def err_def D_def algebra_simps)+
  have IH: "draw_line_loop rnd color (xs + sx * dx) (ys + sy * dy) dx dy sx sy
           (renderer_draw_pixel rnd rend (xs + sx * a) (ys + sy * b) color)
           (xs + sx * (a + 1)) (ys + sy * half_down dx dy (a + 1))
           (dx - dy + half_down dx dy (a + 1) * dx - (a + 1) * dy)
         = Some (draw_pixels rnd color
                   (map (\<lambda>k. (xs + sx * k, ys + sy * half_down dx dy k)) [a + 1..dx])
                   (renderer_draw_pixel rnd rend (xs + sx * a) (ys + sy * b) color))"
    by (rule Suc.hyps(1)) (use Suc.hyps(2) Suc.prems lt in simp_all)
  have up: "[a..dx] = a # [a + 1..dx]" using lt by (simp add: upto_rec1)
  have "draw_line_loop rnd color (xs + sx * dx) (ys + sy * dy) dx dy sx sy rend
           (xs + sx * a) (ys + sy * b) err
       = Some (draw_pixels rnd color
                   (map (\<lambda>k. (xs + sx * k, ys + sy * half_down dx dy k)) [a..dx]) rend)"
    unfolding step if_True args IH up by (simp add: draw_pixels_def b_def)
  moreover have "dx - dy + half_down dx dy a * dx - a * dy = err"
    by (simp add: err_def D_def b_def)
  ultimately show ?case by (simp only: b_def)
qed

lemma draw_line_loop_steep:
  assumes dy: "0 < dy" "dy \<le> 2 ^ 29" and dx: "0 \<le> dx" "dx < dy"
    and s: "sx = 1 \<or> sx = - 1" "sy = 1 \<or> sy = - 1"
    and rx: "- (2 ^ 31) \<le> xs" "xs < 2 ^ 31" "- (2 ^ 31) \<le> xs + sx * dx" "xs + sx * dx < 2 ^ 31"
    and ry: "- (2 ^ 31) \<le> ys" "ys < 2 ^ 31" "- (2 ^ 31) \<le> ys + sy * dy" "ys + sy * dy < 2 ^ 31"
    and a: "0 \<le> a" "a \<le> dy"
  shows "draw_line_loop rnd color (xs + sx * dx) (ys + sy * dy) dx dy sx sy rend
           (xs + sx * half_down dy dx a) (ys + sy * a)
           (dx - dy - half_down dy dx a * dy + a * dx)
         = Some (draw_pixels rnd color
                   (map (\<lambda>k. (xs + sx * half_down dy dx k, ys + sy * k)) [a..dy]) rend)"
  using a
proof (induction "nat (dy - a)" arbitrary: a rend)
  case 0
  then have "a = dy" by simp
  then show ?case
    using dy(1) by (simp add: half_down_end draw_line_loop_stop draw_pixels_def)
next
  case (Suc n)
  then have lt: "a < dy" by linarith
  define b where "b = half_down dy dx a"
  define D where "D = b * dy - a * dx"
  define err where "err = dx - dy - D"
  have bD: "- dy \<le> 2 * D" "2 * D < dy"
    unfolding D_def b_def by (rule half_down_bounds[OF dy(1)])+
  define cx where "cx \<longleftrightarrow> 2 * err > - dy"
  have cy: "2 * err < dx"
    using bD dx by (simp add: err_def)
  define b' where "b' = (if cx then b + 1 else b)"
  have b': "half_down dy dx (a + 1) = b'"
  proof (rule half_down_unique[OF dy(1)])
    have e: "b' * dy - (a + 1) * dx = D - dx + (if cx then dy else 0)"
      by (simp add: b'_def D_def algebra_simps)
    show "- dy \<le> 2 * (b' * dy - (a + 1) * dx)"
      unfolding e using bD dx by (simp add: cx_def err_def)
    show "2 * (b' * dy - (a + 1) * dx) < dy"
      unfolding e using bD dx by (simp add: cx_def err_def)
  qed
  have brange: "0 \<le> b" "b \<le> dx" "0 \<le> b'" "b' \<le> dx"
    using half_down_range[OF dy(1) dx(1), of a] half_down_range[OF dy(1) dx(1), of "a + 1"]
      Suc.prems lt by (simp_all add: b_def b')
  have xr: "- (2 ^ 31) \<le> xs + sx * k \<and> xs + sx * k < 2 ^ 31" if "0 \<le> k" "k \<le> dx" for k
    using s(1) rx that by auto
  have yr: "- (2 ^ 31) \<le> ys + sy * k \<and> ys + sy * k < 2 ^ 31" if "0 \<le> k" "k \<le> dy" for k
    using s(2) ry that by auto
  have ne: "xs + sx * b \<noteq> xs + sx * dx \<or> ys + sy * a \<noteq> ys + sy * dy"
    using lt s(2) by auto
  have step: "draw_line_loop rnd color (xs + sx * dx) (ys + sy * dy) dx dy sx sy rend
           (xs + sx * b) (ys + sy * a) err =
         draw_line_loop rnd color (xs + sx * dx) (ys + sy * dy) dx dy sx sy
           (renderer_draw_pixel rnd rend (xs + sx * b) (ys + sy * a) color)
           (if cx then xs + sx * b + sx else xs + sx * b)
           (if True then ys + sy * a + sy else ys + sy * a)
           (err - (if cx then dy else 0) + (if True then dx else 0))"
  proof (rule draw_line_loop_step[OF ne])
    show "- (2 ^ 31) \<le> 2 * err" "2 * err < 2 ^ 31"
      using bD dx dy by (simp_all add: err_def)
    show "0 \<le> dy" "dy \<le> 2 ^ 29" "0 \<le> dx" "dx \<le> 2 ^ 29" using dx dy by simp_all
    show "True \<longleftrightarrow> 2 * err < dx" using cy by simp
    show "cx \<longleftrightarrow> 2 * err > - dy" by (simp add: cx_def)
    show "- (2 ^ 31) \<le> ys + sy * a + sy \<and> ys + sy * a + sy < 2 ^ 31 \<or> \<not> True"
      using yr[of "a + 1"] Suc.prems lt by (simp add: algebra_simps)
    show "- (2 ^ 31) \<le> xs + sx * b + sx \<and> xs + sx * b + sx < 2 ^ 31 \<or> \<not> cx"
      using xr[of "b + 1"] brange by (auto simp: b'_def algebra_simps split: if_splits)
  qed
  have args: "ys + sy * a + sy = ys + sy * (a + 1)"
    "(if cx then xs + sx * b + sx else xs + sx * b) = xs + sx * half_down dy dx (a + 1)"
    "err - (if cx then dy else 0) + dx = dx - dy - half_down dy dx (a + 1) * dy + (a + 1) * dx"
    unfolding b' by (cases cx; simp add: b'_def err_def D_def algebra_simps)+
  have IH: "draw_line_loop rnd color (xs + sx * dx) (ys + sy * dy) dx dy sx sy
           (renderer_draw_pixel rnd rend (xs + sx * b) (ys + sy * a) color)
           (xs + sx * half_down dy dx (a + 1)) (ys + sy * (a + 1))
           (dx - dy - half_down dy dx (a + 1) * dy + (a + 1) * dx)
         = Some (draw_pixels rnd color
                   (map (\<lambda>k. (xs + sx * half_down dy dx k, ys + sy * k)) [a + 1..dy])
                   (renderer_draw_pixel rnd rend (xs + sx * b) (ys + sy * a) color))"
    by (rule Suc.hyps(1)) (use Suc.hyps(2) Suc.prems lt in simp_all)
  have up: "[a..dy] = a # [a + 1..dy]" using lt by (simp add: upto_rec1)
  have "draw_line_loop rnd color (xs + sx * dx) (ys + sy * dy) dx dy sx sy rend
           (xs + sx * b) (ys + sy * a) err
       = Some (draw_pixels rnd color
                   (map (\<lambda>k. (xs + sx * half_down dy dx k, ys + sy * k)) [a..dy]) rend)"
    unfolding step if_True args IH up by (simp add: draw_pixels_def b_def)
  moreover have "dx - dy - half_down dy dx a * dy + a * dx = err"
    by (simp add: err_def D_def b_def)
  ultimately show ?case by (simp only: b_def)
qed

lemma renderer_draw_line_pixels:
  assumes "line_in_range x1 y1 x2 y2"
  shows "renderer_draw_line rnd rend x1 y1 x2 y2 color =
           Some (draw_pixels rnd color (line_pixels x1 y1 x2 y2) rend)"
proof -
  define dx where "dx = \<bar>x2 - x1\<bar>"
  define dy where "dy = \<bar>y2 - y1\<bar>"
  define sx :: int where "sx = (if x1 < x2 then 1 else - 1)"
  define sy :: int where "sy = (if y1 < y2 then 1 else - 1)"
  have r: "- (2 ^ 31) \<le> x1" "x1 < 2 ^ 31" "- (2 ^ 31) \<le> y1" "y1 < 2 ^ 31"
    "- (2 ^ 31) \<le> x2" "x2 < 2 ^ 31" "- (2 ^ 31) \<le> y2" "y2 < 2 ^ 31"
    "\<bar>x2 - x1\<bar> \<le> 2 ^ 29" "\<bar>y2 - y1\<bar> \<le> 2 ^ 29"
    using assms by (simp_all add: line_in_range_def int32_range_def)
  have d: "0 \<le> dx" "dx \<le> 2 ^ 29" "0 \<le> dy" "dy \<le> 2 ^ 29"
    using r by (simp_all add: dx_def dy_def)
  have w: "wrap32 (x2 - x1) = x2 - x1" "wrap32 (y2 - y1) = y2 - y1"
    using r by (simp_all add: wrap32_id)
  have w': "wrap32 dx = dx" "wrap32 dy = dy" "wrap32 (dx - dy) = dx - dy"
    using d by (simp_all add: wrap32_id)
  have e: "x2 = x1 + sx * dx" "y2 = y1 + sy * dy"
    by (simp_all add: sx_def sy_def dx_def dy_def)
  have s: "sx = 1 \<or> sx = - 1" "sy = 1 \<or> sy = - 1" by (simp_all add: sx_def sy_def)
  have unf: "renderer_draw_line rnd rend x1 y1 x2 y2 color =
        draw_line_loop rnd color (x1 + sx * dx) (y1 + sy * dy) dx dy sx sy rend x1 y1 (dx - dy)"
    unfolding renderer_draw_line_def Let_def w dx_def[symmetric] dy_def[symmetric] w'
      sx_def[symmetric] sy_def[symmetric] e[symmetric] ..
  have rng: "- (2 ^ 31) \<le> x1" "x1 < 2 ^ 31" "- (2 ^ 31) \<le> x1 + sx * dx" "x1 + sx * dx < 2 ^ 31"
    "- (2 ^ 31) \<le> y1" "y1 < 2 ^ 31" "- (2 ^ 31) \<le> y1 + sy * dy" "y1 + sy * dy < 2 ^ 31"
    unfolding e[symmetric] using r by simp_all
  show ?thesis
  proof (cases "dy \<le> dx")
    case True
    show ?thesis
    proof (cases "dx = 0")
      case True
      then have "dy = 0" using \<open>dy \<le> dx\<close> d by simp
      then have "x2 = x1" "y2 = y1" using True by (simp_all add: dx_def dy_def)
      then show ?thesis
        by (simp add: renderer_draw_line_def Let_def draw_line_loop_stop line_pixels_def
            draw_pixels_def half_down_def)
    next
      case False
      then have pos: "0 < dx" using d by simp
      have "draw_line_loop rnd color (x1 + sx * dx) (y1 + sy * dy) dx dy sx sy rend
           (x1 + sx * 0) (y1 + sy * half_down dx dy 0)
           (dx - dy + half_down dx dy 0 * dx - 0 * dy)
         = Some (draw_pixels rnd color
                   (map (\<lambda>k. (x1 + sx * k, y1 + sy * half_down dx dy k)) [0..dx]) rend)"
        by (rule draw_line_loop_shallow[OF pos d(2) d(3) True s rng]) (use pos in simp_all)
      then have "draw_line_loop rnd color (x1 + sx * dx) (y1 + sy * dy) dx dy sx sy rend x1 y1 (dx - dy)
         = Some (draw_pixels rnd color
                   (map (\<lambda>k. (x1 + sx * k, y1 + sy * half_down dx dy k)) [0..dx]) rend)"
        using pos by (simp add: half_down_0)
      then show ?thesis
        unfolding unf using True
        by (simp add: line_pixels_def Let_def dx_def[symmetric] dy_def[symmetric]
            sx_def[symmetric] sy_def[symmetric])
    qed
  next
    case False
    then have lt: "dx < dy" by simp
    then have pos: "0 < dy" using d by simp
    have "draw_line_loop rnd color (x1 + sx * dx) (y1 + sy * dy) dx dy sx sy rend
           (x1 + sx * half_down dy dx 0) (y1 + sy * 0)
           (dx - dy - half_down dy dx 0 * dy + 0 * dx)
         = Some (draw_pixels rnd color
                   (map (\<lambda>k. (x1 + sx * half_down dy dx k, y1 + sy * k)) [0..dy]) rend)"
      by (rule draw_line_loop_steep[OF pos d(4) d(1) lt s rng]) (use pos in simp_all)
    then have "draw_line_loop rnd color (x1 + sx * dx) (y1 + sy * dy) dx dy sx sy rend x1 y1 (dx - dy)
         = Some (draw_pixels rnd color
                   (map (\<lambda>k. (x1 + sx * half_down dy dx k, y1 + sy * k)) [0..dy]) rend)"
      using pos by (simp add: half_down_0)
    then show ?thesis
      unfolding unf using False
      by (simp add: line_pixels_def Let_def dx_def[symmetric] dy_def[symmetric]
          sx_def[symmetric] sy_def[symmetric])
  qed
qed

lemma rev_upto_0: "rev [0..m] = map (\<lambda>k. m - k) [0..m]"
proof (rule nth_equalityI)
  show "length (rev [0..m]) = length (map (\<lambda>k. m - k) [0..m])" by simp
next
  fix i assume "i < length (rev [0..m])"
  then have i: "i < nat (m + 1)" by simp
  then have "rev [0..m] ! i = [0..m] ! (nat (m + 1) - Suc i)" by (simp add: rev_nth)
  also have "\<dots> = 0 + int (nat (m + 1) - Suc i)" using i by (intro nth_upto) linarith
  also have "\<dots> = m - int i" using i by linarith
  finally have l: "rev [0..m] ! i = m - int i" .
  have "[0..m] ! i = 0 + int i" using i by (intro nth_upto) linarith
  then have "map (\<lambda>k. m - k) [0..m] ! i = m - int i" using i by simp
  with l show "rev [0..m] ! i = map (\<lambda>k. m - k) [0..m] ! i" by simp
qed

lemma half_down_no_tie:
  fixes m n b j :: int
  assumes m: "0 < m" and odd: "odd (m div gcd m n)"
  shows "2 * (b * m - j * n) \<noteq> - m"
proof
  assume t: "2 * (b * m - j * n) = - m"
  define g where "g = gcd m n"
  have g: "0 < g" using m gcd_pos_int[of m n] by (simp add: g_def)
  have mm: "m = g * (m div g)" by (simp add: g_def)
  have nn: "n = g * (n div g)" by (simp add: g_def)
  have "m * (2 * b + 1) = 2 * (j * n)" using t by (simp add: algebra_simps)
  then have "g * ((m div g) * (2 * b + 1)) = g * (2 * (j * (n div g)))"
    using mm nn by (metis mult.assoc mult.left_commute)
  then have "(m div g) * (2 * b + 1) = 2 * (j * (n div g))" using g by simp
  moreover have "odd ((m div g) * (2 * b + 1))" using odd by (simp add: g_def)
  ultimately show False by simp
qed

lemma half_down_mirror:
  assumes m: "0 < m" and odd: "odd (m div gcd m n)"
  shows "half_down m n (m - j) = n - half_down m n j"
proof (rule half_down_unique[OF m])
  define b where "b = half_down m n j"
  have bd: "- m \<le> 2 * (b * m - j * n)" "2 * (b * m - j * n) < m"
    unfolding b_def by (rule half_down_bounds[OF m])+
  have nt: "2 * (b * m - j * n) \<noteq> - m" by (rule half_down_no_tie[OF m odd])
  have e: "(n - b) * m - (m - j) * n = - (b * m - j * n)" by (simp add: algebra_simps)
  show "- m \<le> 2 * ((n - half_down m n j) * m - (m - j) * n)"
    unfolding b_def[symmetric] e using bd by simp
  show "2 * ((n - half_down m n j) * m - (m - j) * n) < m"
    unfolding b_def[symmetric] e using bd nt by simp
qed

lemma line_pixels_rev:
  assumes "line_symmetric x1 y1 x2 y2"
  shows "line_pixels x2 y2 x1 y1 = rev (line_pixels x1 y1 x2 y2)"
proof -
  define dx where "dx = \<bar>x2 - x1\<bar>"
  define dy where "dy = \<bar>y2 - y1\<bar>"
  define sx :: int where "sx = (if x1 < x2 then 1 else - 1)"
  define sy :: int where "sy = (if y1 < y2 then 1 else - 1)"
  define sx' :: int where "sx' = (if x2 < x1 then 1 else - 1)"
  define sy' :: int where "sy' = (if y2 < y1 then 1 else - 1)"
  have d': "\<bar>x1 - x2\<bar> = dx" "\<bar>y1 - y2\<bar> = dy" by (simp_all add: dx_def dy_def)
  have e: "x2 = x1 + sx * dx" "y2 = y1 + sy * dy"
    by (simp_all add: sx_def sy_def dx_def dy_def)
  have sxm: "sx' * k = - sx * k" if "0 < dx" for k
    using that by (auto simp: sx_def sx'_def dx_def)
  have sym: "sy' * k = - sy * k" if "0 < dy" for k
    using that by (auto simp: sy_def sy'_def dy_def)
  have fw: "line_pixels x1 y1 x2 y2 =
      (if dy \<le> dx then map (\<lambda>k. (x1 + sx * k, y1 + sy * half_down dx dy k)) [0..dx]
       else map (\<lambda>k. (x1 + sx * half_down dy dx k, y1 + sy * k)) [0..dy])"
    by (simp add: line_pixels_def Let_def dx_def dy_def sx_def sy_def)
  have bw: "line_pixels x2 y2 x1 y1 =
      (if dy \<le> dx then map (\<lambda>k. (x2 + sx' * k, y2 + sy' * half_down dx dy k)) [0..dx]
       else map (\<lambda>k. (x2 + sx' * half_down dy dx k, y2 + sy' * k)) [0..dy])"
    unfolding line_pixels_def Let_def d' sx'_def sy'_def by simp
  have cond: "(dx = 0 \<and> dy = 0) \<or> odd (max dx dy div gcd dx dy)"
    using assms by (simp add: line_symmetric_def Let_def dx_def dy_def)
  have nonneg: "0 \<le> dx" "0 \<le> dy" by (simp_all add: dx_def dy_def)
  show ?thesis
  proof (cases "dx = 0 \<and> dy = 0")
    case True
    then have "x2 = x1" "y2 = y1" by (simp_all add: dx_def dy_def)
    then show ?thesis by (simp add: line_pixels_def)
  next
    case False
    with cond have odd: "odd (max dx dy div gcd dx dy)" by simp
    show ?thesis
    proof (cases "dy \<le> dx")
      case True
      then have pos: "0 < dx" using False nonneg by linarith
      have o: "odd (dx div gcd dx dy)" using odd True by (simp add: max_def)
      have pt: "(x2 + sx' * k, y2 + sy' * half_down dx dy k) =
                (x1 + sx * (dx - k), y1 + sy * half_down dx dy (dx - k))" for k
      proof -
        have "sy' * half_down dx dy k = - sy * half_down dx dy k"
        proof (cases "dy = 0")
          case True
          then show ?thesis using pos by (simp add: half_down_def)
        next
          case False
          then show ?thesis using nonneg by (intro sym) simp
        qed
        then show ?thesis
          unfolding half_down_mirror[OF pos o] e sxm[OF pos] by (simp add: algebra_simps)
      qed
      show ?thesis
        unfolding fw bw using True by (simp add: rev_map rev_upto_0 pt o_def)
    next
      case False
      then have lt: "dx < dy" by simp
      then have pos: "0 < dy" using nonneg by linarith
      have o: "odd (dy div gcd dy dx)" using odd lt by (simp add: max_def gcd.commute)
      have pt: "(x2 + sx' * half_down dy dx k, y2 + sy' * k) =
                (x1 + sx * half_down dy dx (dy - k), y1 + sy * (dy - k))" for k
      proof -
        have "sx' * half_down dy dx k = - sx * half_down dy dx k"
        proof (cases "dx = 0")
          case True
          then show ?thesis using pos by (simp add: half_down_def)
        next
          case False
          then show ?thesis using nonneg by (intro sxm) simp
        qed
        then show ?thesis
          unfolding half_down_mirror[OF pos o] e sym[OF pos] by (simp add: algebra_simps)
      qed
      show ?thesis
        unfolding fw bw using False by (simp add: rev_map rev_upto_0 pt o_def)
    qed
  qed
qed

lemma line_pixels_tie:
  assumes "\<not> line_symmetric x1 y1 x2 y2"
  shows "set (line_pixels x2 y2 x1 y1) \<noteq> set (line_pixels x1 y1 x2 y2)"
proof -
  define dx where "dx = \<bar>x2 - x1\<bar>"
  define dy where "dy = \<bar>y2 - y1\<bar>"
  define sx :: int where "sx = (if x1 < x2 then 1 else - 1)"
  define sy :: int where "sy = (if y1 < y2 then 1 else - 1)"
  define sx' :: int where "sx' = (if x2 < x1 then 1 else - 1)"
  define sy' :: int where "sy' = (if y2 < y1 then 1 else - 1)"
  have d': "\<bar>x1 - x2\<bar> = dx" "\<bar>y1 - y2\<bar> = dy" by (simp_all add: dx_def dy_def)
  have e: "x2 = x1 + sx * dx" "y2 = y1 + sy * dy"
    by (simp_all add: sx_def sy_def dx_def dy_def)
  have s: "sx = 1 \<or> sx = - 1" "sy = 1 \<or> sy = - 1" by (simp_all add: sx_def sy_def)
  have sxm: "sx' = - sx" if "0 < dx"
    using that by (auto simp: sx_def sx'_def dx_def)
  have sym: "sy' = - sy" if "0 < dy"
    using that by (auto simp: sy_def sy'_def dy_def)
  have fw: "line_pixels x1 y1 x2 y2 =
      (if dy \<le> dx then map (\<lambda>k. (x1 + sx * k, y1 + sy * half_down dx dy k)) [0..dx]
       else map (\<lambda>k. (x1 + sx * half_down dy dx k, y1 + sy * k)) [0..dy])"
    by (simp add: line_pixels_def Let_def dx_def dy_def sx_def sy_def)
  have bw: "line_pixels x2 y2 x1 y1 =
      (if dy \<le> dx then map (\<lambda>k. (x2 + sx' * k, y2 + sy' * half_down dx dy k)) [0..dx]
       else map (\<lambda>k. (x2 + sx' * half_down dy dx k, y2 + sy' * k)) [0..dy])"
    unfolding line_pixels_def Let_def d' sx'_def sy'_def by simp
  have cond: "\<not> (dx = 0 \<and> dy = 0)" "even (max dx dy div gcd dx dy)"
    using assms by (simp_all add: line_symmetric_def Let_def dx_def dy_def)
  have nonneg: "0 \<le> dx" "0 \<le> dy" by (simp_all add: dx_def dy_def)
  have tie: "\<exists>j b. 0 \<le> j \<and> j \<le> m \<and> half_down m n j = b \<and> half_down m n (m - j) = n - b - 1"
    if m: "0 < m" and n: "0 \<le> n" and ev: "even (m div gcd m n)" for m n :: int
  proof -
    define g where "g = gcd m n"
    have g: "0 < g" using m gcd_pos_int[of m n] by (simp add: g_def)
    have mm: "m = g * (m div g)" by (simp add: g_def)
    have nn: "n = g * (n div g)" by (simp add: g_def)
    have cop: "coprime (m div g) (n div g)"
      unfolding g_def using m by (intro div_gcd_coprime) simp
    have "odd (n div g)"
    proof
      assume "even (n div g)"
      with ev have "2 dvd m div g" "2 dvd n div g" by (simp_all add: g_def)
      with cop have "is_unit (2::int)" by (rule coprime_common_divisor)
      then show False by simp
    qed
    then obtain b where b: "n div g = 2 * b + 1" by (elim oddE)
    obtain j where j: "m div g = 2 * j" using ev unfolding g_def by (elim evenE)
    have mpos: "0 < m div g" using m g mm by (metis zero_less_mult_pos)
    have j0: "0 \<le> j" using mpos j by simp
    have "1 * (m div g) \<le> g * (m div g)" by (rule mult_right_mono) (use g mpos in simp_all)
    then have "m div g \<le> m" using mm by simp
    then have jm: "j \<le> m" using j j0 by simp
    have key: "2 * (b * m - j * n) = - m"
    proof -
      have "2 * (j * n) = (m div g) * n" using j by simp
      also have "\<dots> = (m div g) * (g * (n div g))" using nn by simp
      also have "\<dots> = m * (n div g)" using mm by (metis mult.assoc mult.commute)
      also have "\<dots> = m * (2 * b + 1)" using b by simp
      finally show ?thesis by (simp add: algebra_simps)
    qed
    have h1: "half_down m n j = b"
      by (rule half_down_unique[OF m]) (use key m in simp_all)
    have e2: "2 * ((n - b - 1) * m - (m - j) * n) = - 2 * (b * m - j * n) - 2 * m"
      by (simp add: algebra_simps)
    have e3: "2 * ((n - b - 1) * m - (m - j) * n) = - m"
      using e2 key by linarith
    have h2: "half_down m n (m - j) = n - b - 1"
      by (rule half_down_unique[OF m]; unfold e3) (use m in simp_all)
    show ?thesis using j0 jm h1 h2 by blast
  qed
  show ?thesis
  proof (cases "dy \<le> dx")
    case True
    then have pos: "0 < dx" using cond nonneg by linarith
    have ev: "even (dx div gcd dx dy)" using cond True by (simp add: max_def)
    obtain j b where jb: "0 \<le> j" "j \<le> dx" "half_down dx dy j = b"
      "half_down dx dy (dx - j) = dy - b - 1"
      using tie[OF pos nonneg(2) ev] by blast
    have dypos: "0 < dy"
    proof (rule ccontr)
      assume "\<not> 0 < dy"
      then have "dy = 0" using nonneg by simp
      then show False using ev pos by simp
    qed
    let ?p = "(x1 + sx * j, y1 + sy * b)"
    have in1: "?p \<in> set (line_pixels x1 y1 x2 y2)"
      unfolding fw using True jb by (auto simp: image_iff intro!: bexI[of _ j])
    have out: "?p \<notin> set (line_pixels x2 y2 x1 y1)"
    proof
      assume "?p \<in> set (line_pixels x2 y2 x1 y1)"
      then obtain k where k: "0 \<le> k" "k \<le> dx" "x1 + sx * j = x2 + sx' * k"
        "y1 + sy * b = y2 + sy' * half_down dx dy k"
        unfolding bw using True by auto
      from k(3) have "sx * j = sx * (dx - k)"
        unfolding e sxm[OF pos] by (simp add: algebra_simps)
      then have kk: "k = dx - j" using s(1) by auto
      have "y1 + sy * b = y1 + sy * dy + - sy * (dy - b - 1)"
        using k(4) unfolding kk jb(4) sym[OF dypos] e(2) .
      then have "sy * b = sy * (b + 1)" by (simp add: algebra_simps)
      then show False using s(2) by auto
    qed
    from in1 out show ?thesis by blast
  next
    case False
    then have lt: "dx < dy" by simp
    then have pos: "0 < dy" using nonneg by linarith
    have ev: "even (dy div gcd dy dx)" using cond lt by (simp add: max_def gcd.commute)
    obtain j b where jb: "0 \<le> j" "j \<le> dy" "half_down dy dx j = b"
      "half_down dy dx (dy - j) = dx - b - 1"
      using tie[OF pos nonneg(1) ev] by blast
    have dxpos: "0 < dx"
    proof (rule ccontr)
      assume "\<not> 0 < dx"
      then have "dx = 0" using nonneg by simp
      then show False using ev pos by simp
    qed
    let ?p = "(x1 + sx * b, y1 + sy * j)"
    have in1: "?p \<in> set (line_pixels x1 y1 x2 y2)"
      unfolding fw using False jb by (auto simp: image_iff intro!: bexI[of _ j])
    have out: "?p \<notin> set (line_pixels x2 y2 x1 y1)"
    proof
      assume "?p \<in> set (line_pixels x2 y2 x1 y1)"
      then obtain k where k: "0 \<le> k" "k \<le> dy" "y1 + sy * j = y2 + sy' * k"
        "x1 + sx * b = x2 + sx' * half_down dy dx k"
        unfolding bw using False by auto
      from k(3) have "sy * j = sy * (dy - k)"
        unfolding e sym[OF pos] by (simp add: algebra_simps)
      then have kk: "k = dy - j" using s(2) by auto
      have "x1 + sx * b = x1 + sx * dx + - sx * (dx - b - 1)"
        using k(4) unfolding kk jb(4) sxm[OF dxpos] e(1) .
      then have "sx * b = sx * (b + 1)" by (simp add: algebra_simps)
      then show False using s(1) by auto
    qed
    from in1 out show ?thesis by blast
  qed
qed

text \<open>
  C6 as the specification states it fails: the line from \<open>(0, 0)\<close> to \<open>(2, 1)\<close> passes
  through \<open>(1, 0)\<close>, and the line from \<open>(2, 1)\<close> to \<open>(0, 0)\<close> through \<open>(1, 1)\<close>.
\<close>

theorem draw_line_asymmetric:
  "renderer_draw_line (\<lambda>v. v)
     \<lparr>framebuffer = [0, 0, 0, 0, 0, 0], rend_width = 3, rend_height = 2, is_running = True\<rparr>
     0 0 2 1 \<lparr>col_r = 255, col_g = 255, col_b = 255, col_a = 255\<rparr>
   = Some \<lparr>framebuffer = [0xFFFFFFFF, 0xFFFFFFFF, 0, 0, 0, 0xFFFFFFFF],
            rend_width = 3, rend_height = 2, is_running = True\<rparr> \<and>
   renderer_draw_line (\<lambda>v. v)
     \<lparr>framebuffer = [0, 0, 0, 0, 0, 0], rend_width = 3, rend_height = 2, is_running = True\<rparr>
     2 1 0 0 \<lparr>col_r = 255, col_g = 255, col_b = 255, col_a = 255\<rparr>
   = Some \<lparr>framebuffer = [0xFFFFFFFF, 0, 0, 0, 0xFFFFFFFF, 0xFFFFFFFF],
            rend_width = 3, rend_height = 2, is_running = True\<rparr> \<and>
   renderer_draw_line (\<lambda>v. v)
     \<lparr>framebuffer = [0, 0, 0, 0, 0, 0], rend_width = 3, rend_height = 2, is_running = True\<rparr>
     0 0 2 1 \<lparr>col_r = 255, col_g = 255, col_b = 255, col_a = 255\<rparr>
   \<noteq> renderer_draw_line (\<lambda>v. v)
     \<lparr>framebuffer = [0, 0, 0, 0, 0, 0], rend_width = 3, rend_height = 2, is_running = True\<rparr>
     2 1 0 0 \<lparr>col_r = 255, col_g = 255, col_b = 255, col_a = 255\<rparr>"
  by (simp add: renderer_draw_line_def draw_line_loop.simps renderer_draw_pixel_def Let_def
      wrap32_id)

text \<open>
  C6, amended. Let the four coordinates be 32-bit \<^verbatim>\<open>int\<close> values whose differences in
  columns and in rows are at most \<open>2\<^sup>2\<^sup>9\<close> in absolute value, so that no computation of the
  loop overflows. Then \<open>renderer_draw_line\<close> returns, and what it draws is the list
  \<open>line_pixels\<close>: one pixel for each step along the longer extent, at the multiple of
  the slope rounded to the nearest integer, a half rounded toward the first endpoint.
  When the longer of the two extents divided by their greatest common divisor is odd
  (every horizontal, vertical and diagonal line is such a line), or the endpoints are
  equal, no half occurs and the line drawn from either endpoint gives the same
  renderer. In every other case a half occurs and the two orders of the endpoints draw
  different sets of pixels.
\<close>

theorem draw_line_symmetric_odd_quotient:
  assumes "line_in_range x1 y1 x2 y2"
  shows "renderer_draw_line rnd rend x1 y1 x2 y2 color =
           Some (draw_pixels rnd color (line_pixels x1 y1 x2 y2) rend) \<and>
         (line_symmetric x1 y1 x2 y2 \<longrightarrow>
            renderer_draw_line rnd rend x2 y2 x1 y1 color =
            renderer_draw_line rnd rend x1 y1 x2 y2 color) \<and>
         (\<not> line_symmetric x1 y1 x2 y2 \<longrightarrow>
            set (line_pixels x2 y2 x1 y1) \<noteq> set (line_pixels x1 y1 x2 y2))"
proof -
  have r: "line_in_range x2 y2 x1 y1"
    using assms by (simp add: line_in_range_def abs_minus_commute)
  have "renderer_draw_line rnd rend x2 y2 x1 y1 color =
        renderer_draw_line rnd rend x1 y1 x2 y2 color" if "line_symmetric x1 y1 x2 y2"
    unfolding renderer_draw_line_pixels[OF r] renderer_draw_line_pixels[OF assms]
      line_pixels_rev[OF that] draw_pixels_rev ..
  then show ?thesis
    using renderer_draw_line_pixels[OF assms] line_pixels_tie by blast
qed

theorem draw_line_symmetric_odd_quotient_witness:
  "renderer_draw_line (\<lambda>v. v)
     \<lparr>framebuffer = [0, 0, 0, 0, 0, 0, 0, 0], rend_width = 4, rend_height = 2, is_running = True\<rparr>
     0 0 3 1 \<lparr>col_r = 255, col_g = 255, col_b = 255, col_a = 255\<rparr>
   = Some \<lparr>framebuffer = [0xFFFFFFFF, 0xFFFFFFFF, 0, 0, 0, 0, 0xFFFFFFFF, 0xFFFFFFFF],
            rend_width = 4, rend_height = 2, is_running = True\<rparr> \<and>
   renderer_draw_line (\<lambda>v. v)
     \<lparr>framebuffer = [0, 0, 0, 0, 0, 0, 0, 0], rend_width = 4, rend_height = 2, is_running = True\<rparr>
     3 1 0 0 \<lparr>col_r = 255, col_g = 255, col_b = 255, col_a = 255\<rparr>
   = Some \<lparr>framebuffer = [0xFFFFFFFF, 0xFFFFFFFF, 0, 0, 0, 0, 0xFFFFFFFF, 0xFFFFFFFF],
            rend_width = 4, rend_height = 2, is_running = True\<rparr> \<and>
   set (line_pixels 2 1 0 0) \<noteq> set (line_pixels 0 0 2 1)"
proof -
  have r1: "line_in_range 0 0 3 1" by (simp add: line_in_range_def int32_range_def)
  have s1: "line_symmetric 0 0 3 1" by code_simp
  have r2: "line_in_range 0 0 2 1" by (simp add: line_in_range_def int32_range_def)
  have s2: "\<not> line_symmetric 0 0 2 1" by code_simp
  have px: "line_pixels 0 0 3 1 = [(0, 0), (1, 0), (2, 1), (3, 1)]"
    by code_simp
  note a = draw_line_symmetric_odd_quotient[OF r1, of "\<lambda>v. v"
      "\<lparr>framebuffer = [0, 0, 0, 0, 0, 0, 0, 0], rend_width = 4, rend_height = 2, is_running = True\<rparr>"
      "\<lparr>col_r = 255, col_g = 255, col_b = 255, col_a = 255\<rparr>"]
  have fwd: "renderer_draw_line (\<lambda>v. v)
     \<lparr>framebuffer = [0, 0, 0, 0, 0, 0, 0, 0], rend_width = 4, rend_height = 2, is_running = True\<rparr>
     0 0 3 1 \<lparr>col_r = 255, col_g = 255, col_b = 255, col_a = 255\<rparr>
   = Some \<lparr>framebuffer = [0xFFFFFFFF, 0xFFFFFFFF, 0, 0, 0, 0, 0xFFFFFFFF, 0xFFFFFFFF],
            rend_width = 4, rend_height = 2, is_running = True\<rparr>"
    unfolding a[THEN conjunct1] px
    by (simp add: draw_pixels_def renderer_draw_pixel_def Let_def)
  have bwd: "renderer_draw_line (\<lambda>v. v)
     \<lparr>framebuffer = [0, 0, 0, 0, 0, 0, 0, 0], rend_width = 4, rend_height = 2, is_running = True\<rparr>
     3 1 0 0 \<lparr>col_r = 255, col_g = 255, col_b = 255, col_a = 255\<rparr>
   = Some \<lparr>framebuffer = [0xFFFFFFFF, 0xFFFFFFFF, 0, 0, 0, 0, 0xFFFFFFFF, 0xFFFFFFFF],
            rend_width = 4, rend_height = 2, is_running = True\<rparr>"
    using a[THEN conjunct2, THEN conjunct1] s1 fwd by simp
  have ne: "set (line_pixels 2 1 0 0) \<noteq> set (line_pixels 0 0 2 1)"
    using draw_line_symmetric_odd_quotient[OF r2, THEN conjunct2, THEN conjunct2] s2 by simp
  show ?thesis using fwd bwd ne by simp
qed

subsection \<open>The BMP decoder\<close>

lemma bpp_sdiv: "(24::int) sdiv 8 = 3" "(32::int) sdiv 8 = 4"
  by (simp_all add: signed_divide_int_def)

lemma bmp_read_pixel_ok:
  assumes bpp: "bpp = 24 \<or> bpp = 32"
    and x: "0 \<le> x" "x < iw"
    and len: "(bpp sdiv 8) * iw \<le> int (length b)" "int (length b) < 2 ^ 31"
  shows "bmp_read_pixel bpp (Some b) x = Inr (bmp_pixel bpp b x)"
proof -
  define k where "k = bpp sdiv 8"
  have k: "k = 3 \<or> k = 4" "bpp = 32 \<Longrightarrow> k = 4" using bpp by (auto simp: k_def bpp_sdiv)
  have "k * (x + 1) \<le> k * iw" using x k by (intro mult_left_mono) auto
  then have b: "x * k + k \<le> int (length b)" using len(1) by (simp add: k_def algebra_simps)
  have w0: "wrap32 (x * k) = x * k" using x k b len(2) by (intro wrap32_id) auto
  have w: "wrap32 (x * k + 0) = x * k" "wrap32 (x * k + 1) = x * k + 1"
    "wrap32 (x * k + 2) = x * k + 2"
    using x k b len(2) by (auto intro!: wrap32_id)
  have w4: "wrap32 (x * 4) = x * 4" "wrap32 (x * 4 + 3) = x * 4 + 3" if "bpp = 32"
    using x k(2)[OF that] b len(2) by (auto intro!: wrap32_id)
  have l: "load_byte (Some b) (x * k) = Inr (b ! nat (x * k))"
    "load_byte (Some b) (x * k + 1) = Inr (b ! nat (x * k + 1))"
    "load_byte (Some b) (x * k + 2) = Inr (b ! nat (x * k + 2))"
    using x k b by (auto simp: load_byte_def)
  have l4: "load_byte (Some b) (x * 4 + 3) = Inr (b ! nat (x * 4 + 3))" if "bpp = 32"
    using x k(2)[OF that] b by (auto simp: load_byte_def)
  show ?thesis
    unfolding bmp_read_pixel_def bmp_pixel_def k_def[symmetric] w0 w
    using w4 l4 by (simp add: l)
qed

lemma bmp_pixel_loop_nth:
  assumes bpp: "bpp = 24 \<or> bpp = 32"
    and dims: "0 \<le> iw" "0 \<le> ih" "iw * ih < 2 ^ 31"
    and len: "(bpp sdiv 8) * iw \<le> int (length b)" "int (length b) < 2 ^ 31"
    and y: "0 \<le> y" "y < ih"
    and x0: "0 \<le> x0" and p: "length p = nat (iw * ih)"
  shows "\<exists>p'. bmp_pixel_loop bpp height iw ih (Some b) y x0 (Some p) = Inr (Some p') \<and>
           length p' = length p \<and>
           (\<forall>gx gy. 0 \<le> gx \<and> gx < iw \<and> 0 \<le> gy \<and> gy < ih \<longrightarrow>
              p' ! nat (gy * iw + gx) =
                (if gy = (if height > 0 then ih - 1 - y else y) \<and> x0 \<le> gx then bmp_pixel bpp b gx
                 else p ! nat (gy * iw + gx)))"
  using x0 p
proof (induction "nat (iw - x0)" arbitrary: x0 p)
  case 0
  then have "\<not> x0 < iw" by simp
  then show ?case by (subst bmp_pixel_loop.simps) auto
next
  case (Suc n)
  then have lt: "x0 < iw" by linarith
  define ry where "ry = (if height > 0 then ih - 1 - y else y)"
  have ry: "0 \<le> ry" "ry < ih" using y by (auto simp: ry_def)
  define i where "i = ry * iw + x0"
  have "ry * iw \<le> (ih - 1) * iw" using ry dims by (intro mult_right_mono) auto
  then have i1: "i < iw * ih" using lt by (simp add: i_def algebra_simps)
  have i0: "0 \<le> i" using ry dims Suc.prems by (simp add: i_def)
  have "ry * iw \<le> i" using Suc.prems by (simp add: i_def)
  then have ryw: "0 \<le> ry * iw" "ry * iw < 2 ^ 31" using ry dims i1 by auto
  have idx: "(if height > 0 then wrap32 (wrap32 (wrap32 (wrap32 (ih - 1) - y) * iw) + x0)
               else wrap32 (wrap32 (y * iw) + x0)) = i"
  proof (cases "height > 0")
    case True
    then have r: "ry = ih - 1 - y" by (simp add: ry_def)
    have ihb: "ih < 2 ^ 31 \<or> iw = 0"
    proof (cases "iw = 0")
      case False
      then have "1 * ih \<le> iw * ih" using dims by (intro mult_right_mono) auto
      then show ?thesis using dims by simp
    qed simp
    have "iw \<noteq> 0" using lt Suc.prems by auto
    with ihb have ihb': "ih < 2 ^ 31" by simp
    have a: "wrap32 (ih - 1) = ih - 1" using dims ihb' y by (intro wrap32_id) auto
    have b: "wrap32 (ih - 1 - y) = ry" unfolding r using y ihb' by (intro wrap32_id) auto
    have c: "wrap32 (ry * iw) = ry * iw" using ryw by (intro wrap32_id) auto
    have d: "wrap32 (ry * iw + x0) = i" unfolding i_def[symmetric] using i0 i1 dims
      by (intro wrap32_id) auto
    show ?thesis using True by (simp add: a b c d)
  next
    case False
    then have r: "ry = y" by (simp add: ry_def)
    have c: "wrap32 (y * iw) = y * iw" using ryw unfolding r by (intro wrap32_id) auto
    have d: "wrap32 (y * iw + x0) = i" using i0 i1 dims unfolding i_def r
      by (intro wrap32_id) auto
    show ?thesis using False by (simp add: c d)
  qed
  define v where "v = bmp_pixel bpp b x0"
  have rd: "bmp_read_pixel bpp (Some b) x0 = Inr v"
    unfolding v_def by (rule bmp_read_pixel_ok[OF bpp Suc.prems(1) lt len])
  have inb: "nat i < length p" using i0 i1 Suc.prems by simp
  have st: "store_word (Some p) i v = Inr (Some (p[nat i := v]))"
    using i0 inb by (simp add: store_word_def)
  have step: "bmp_pixel_loop bpp height iw ih (Some b) y x0 (Some p) =
              bmp_pixel_loop bpp height iw ih (Some b) y (x0 + 1) (Some (p[nat i := v]))"
    apply (subst bmp_pixel_loop.simps)
    unfolding Let_def idx rd
    using lt st apply simp
    done
  have "\<exists>p'. bmp_pixel_loop bpp height iw ih (Some b) y (x0 + 1) (Some (p[nat i := v])) =
             Inr (Some p') \<and> length p' = length (p[nat i := v]) \<and>
           (\<forall>gx gy. 0 \<le> gx \<and> gx < iw \<and> 0 \<le> gy \<and> gy < ih \<longrightarrow>
              p' ! nat (gy * iw + gx) =
                (if gy = (if height > 0 then ih - 1 - y else y) \<and> x0 + 1 \<le> gx
                 then bmp_pixel bpp b gx
                 else (p[nat i := v]) ! nat (gy * iw + gx)))"
    by (rule Suc.hyps(1)) (use Suc.hyps(2) Suc.prems in simp_all)
  then obtain p' where p': "bmp_pixel_loop bpp height iw ih (Some b) y (x0 + 1)
        (Some (p[nat i := v])) = Inr (Some p')" "length p' = length p"
    and nth: "\<And>gx gy. 0 \<le> gx \<Longrightarrow> gx < iw \<Longrightarrow> 0 \<le> gy \<Longrightarrow> gy < ih \<Longrightarrow>
              p' ! nat (gy * iw + gx) =
                (if gy = ry \<and> x0 + 1 \<le> gx then bmp_pixel bpp b gx
                 else (p[nat i := v]) ! nat (gy * iw + gx))"
    unfolding ry_def by auto
  have "p' ! nat (gy * iw + gx) =
          (if gy = ry \<and> x0 \<le> gx then bmp_pixel bpp b gx else p ! nat (gy * iw + gx))"
    if g: "0 \<le> gx" "gx < iw" "0 \<le> gy" "gy < ih" for gx gy
  proof (cases "(gx, gy) = (x0, ry)")
    case True
    then show ?thesis using nth[OF g] inb by (simp add: i_def v_def)
  next
    case False
    then have "nat (gy * iw + gx) \<noteq> nat i"
      unfolding i_def using g ry Suc.prems lt by (intro index_inj) auto
    then show ?thesis using False nth[OF g] by auto
  qed
  then show ?case unfolding step ry_def using p' by auto
qed

lemma fread_length:
  assumes "length buf = n"
  shows "length (fst (fread buf n stream)) = n"
  using assms by (simp add: fread_def)

lemma bmp_row_loop_total:
  assumes bpp: "bpp = 24 \<or> bpp = 32"
    and dims: "0 \<le> iw" "0 \<le> ih" "iw * ih < 2 ^ 31"
    and len: "(bpp sdiv 8) * iw \<le> rs" "rs < 2 ^ 31"
    and y0: "0 \<le> y0" and p: "length p = nat (iw * ih)" and r: "int (length row) = rs"
  shows "\<exists>p'. bmp_row_loop bpp height iw ih rs y0 (Some p) (Some row) strm = Inr (Some p') \<and>
           length p' = length p"
  using y0 p r
proof (induction "nat (ih - y0)" arbitrary: y0 p row strm)
  case 0
  then have "\<not> y0 < ih" by simp
  then show ?case by (subst bmp_row_loop.simps) auto
next
  case (Suc n)
  then have lt: "y0 < ih" by linarith
  define row' where "row' = fst (fread row (nat rs) strm)"
  define strm' where "strm' = snd (fread row (nat rs) strm)"
  have rl: "int (length row') = rs"
    unfolding row'_def using Suc.prems(3) by (subst fread_length) auto
  have fb: "fread_block (Some row) rs strm = Inr (Some row', strm')"
    by (simp add: fread_block_def row'_def strm'_def)
  obtain p1 where p1: "bmp_pixel_loop bpp height iw ih (Some row') y0 0 (Some p) = Inr (Some p1)"
    "length p1 = length p"
    using bmp_pixel_loop_nth[OF bpp dims, of row' y0 0 p height] len rl Suc.prems lt by auto
  have step: "bmp_row_loop bpp height iw ih rs y0 (Some p) (Some row) strm =
              bmp_row_loop bpp height iw ih rs (y0 + 1) (Some p1) (Some row') strm'"
    apply (subst bmp_row_loop.simps)
    using lt apply (simp add: fb p1)
    done
  have "\<exists>p'. bmp_row_loop bpp height iw ih rs (y0 + 1) (Some p1) (Some row') strm' =
          Inr (Some p') \<and> length p' = length p1"
    by (rule Suc.hyps(1)) (use Suc.hyps(2) Suc.prems p1 rl in simp_all)
  then show ?case unfolding step using p1 by auto
qed

lemma bmp_pixel_24: "0 \<le> x \<Longrightarrow> bmp_pixel 24 row x = bmp_pixel24 row (nat (3 * x))"
  by (simp add: bmp_pixel_def bmp_pixel24_def bpp_sdiv nat_add_distrib mult.commute)

lemma fread_full:
  assumes "n \<le> length stream" "length buf = n"
  shows "fst (fread buf n stream) = take n stream" "snd (fread buf n stream) = drop n stream"
  using assms by (simp_all add: fread_def)

lemma bmp_pixel24_drop:
  assumes "n + off + 2 < length bytes"
  shows "bmp_pixel24 (drop n bytes) off = bmp_pixel24 bytes (n + off)"
  using assms by (simp add: bmp_pixel24_def add.assoc)

lemma bmp_pixel24_take:
  assumes "off + 2 < n"
  shows "bmp_pixel24 (take n bytes) off = bmp_pixel24 bytes off"
  using assms by (simp add: bmp_pixel24_def)

lemma bmp_row_loop_nth:
  assumes "0 < h" "0 < w" "w * h < 2 ^ 31" "nat (3 * w) \<le> rs" "int rs < 2 ^ 31"
    and "0 \<le> y0" "y0 \<le> h"
    and "rs * nat (h - y0) \<le> length strm" "length p = nat (w * h)" "length row = rs"
    and "0 \<le> gx" "gx < w" "0 \<le> gy" "gy < h"
  shows "\<exists>p'. bmp_row_loop 24 h w h (int rs) y0 (Some p) (Some row) strm = Inr (Some p') \<and>
           length p' = length p \<and>
           p' ! nat (gy * w + gx) =
           (if y0 \<le> h - 1 - gy then bmp_pixel24 strm (rs * nat (h - 1 - gy - y0) + nat (3 * gx))
            else p ! nat (gy * w + gx))"
  using assms(6-10)
proof (induction "nat (h - y0)" arbitrary: y0 p row strm)
  case 0
  then have "\<not> y0 < h" by simp
  then show ?case
    using assms 0 by (subst bmp_row_loop.simps) simp
next
  case (Suc n)
  then have lt: "y0 < h" by linarith
  have "nat (h - y0) = Suc (nat (h - (y0 + 1)))" using lt by simp
  then have "rs * nat (h - y0) = rs + rs * nat (h - (y0 + 1))" by simp
  with Suc.prems have len: "rs \<le> length strm" "rs * nat (h - (y0 + 1)) \<le> length (drop rs strm)"
    by simp_all
  let ?row = "take rs strm"
  have fb: "fread_block (Some row) (int rs) strm = Inr (Some ?row, drop rs strm)"
    using len Suc.prems by (simp add: fread_block_def fread_full)
  have rl: "length ?row = rs" using len by simp
  have "\<exists>p'. bmp_pixel_loop 24 h w h (Some ?row) y0 0 (Some p) = Inr (Some p') \<and>
           length p' = length p \<and>
           (\<forall>gx gy. 0 \<le> gx \<and> gx < w \<and> 0 \<le> gy \<and> gy < h \<longrightarrow>
              p' ! nat (gy * w + gx) =
                (if gy = (if h > 0 then h - 1 - y0 else y0) \<and> 0 \<le> gx then bmp_pixel 24 ?row gx
                 else p ! nat (gy * w + gx)))"
    by (rule bmp_pixel_loop_nth)
       (use assms(1-5) Suc.prems lt rl in \<open>simp_all add: bpp_sdiv\<close>)
  then obtain p1 where p1: "bmp_pixel_loop 24 h w h (Some ?row) y0 0 (Some p) = Inr (Some p1)"
    "length p1 = length p"
    and inner: "p1 ! nat (gy * w + gx) =
           (if gy = h - 1 - y0 then bmp_pixel24 ?row (nat (3 * gx)) else p ! nat (gy * w + gx))"
    using assms(1,11-14) by (auto simp: bmp_pixel_24)
  have step: "bmp_row_loop 24 h w h (int rs) y0 (Some p) (Some row) strm =
              bmp_row_loop 24 h w h (int rs) (y0 + 1) (Some p1) (Some ?row) (drop rs strm)"
    apply (subst bmp_row_loop.simps)
    using lt apply (simp add: fb p1)
    done
  have "\<exists>p'. bmp_row_loop 24 h w h (int rs) (y0 + 1) (Some p1) (Some ?row) (drop rs strm) =
           Inr (Some p') \<and> length p' = length p1 \<and>
           p' ! nat (gy * w + gx) =
           (if y0 + 1 \<le> h - 1 - gy
            then bmp_pixel24 (drop rs strm) (rs * nat (h - 1 - gy - (y0 + 1)) + nat (3 * gx))
            else p1 ! nat (gy * w + gx))"
    by (rule Suc.hyps(1)) (use Suc.hyps(2) Suc.prems lt len p1 rl in simp_all)
  then obtain p' where p': "bmp_row_loop 24 h w h (int rs) (y0 + 1) (Some p1) (Some ?row)
        (drop rs strm) = Inr (Some p')" "length p' = length p"
    and IH: "p' ! nat (gy * w + gx) =
           (if y0 + 1 \<le> h - 1 - gy
            then bmp_pixel24 (drop rs strm) (rs * nat (h - 1 - gy - (y0 + 1)) + nat (3 * gx))
            else p1 ! nat (gy * w + gx))"
    using p1(2) by auto
  have gx3: "nat (3 * gx) + 2 < rs" using assms by linarith
  have "p' ! nat (gy * w + gx) =
           (if y0 \<le> h - 1 - gy then bmp_pixel24 strm (rs * nat (h - 1 - gy - y0) + nat (3 * gx))
            else p ! nat (gy * w + gx))"
  proof (cases "y0 + 1 \<le> h - 1 - gy")
    case True
    define k where "k = nat (h - 1 - gy - (y0 + 1))"
    have k: "nat (h - 1 - gy - y0) = Suc k" using True by (simp add: k_def)
    have "Suc (Suc k) \<le> nat (h - y0)" using True lt assms(13) by (simp add: k_def)
    then have "rs * Suc (Suc k) \<le> rs * nat (h - y0)" by (rule mult_le_mono2)
    then have "rs + (rs * k + nat (3 * gx)) + 2 < length strm"
      using gx3 Suc.prems(3) by simp
    then have dr: "bmp_pixel24 (drop rs strm) (rs * k + nat (3 * gx))
             = bmp_pixel24 strm (rs + (rs * k + nat (3 * gx)))"
      by (rule bmp_pixel24_drop)
    have "p' ! nat (gy * w + gx) = bmp_pixel24 (drop rs strm) (rs * k + nat (3 * gx))"
      unfolding IH k_def using True by simp
    also note dr
    also have "rs + (rs * k + nat (3 * gx)) = rs * nat (h - 1 - gy - y0) + nat (3 * gx)"
      by (simp add: k)
    finally show ?thesis using True by simp
  next
    case False
    show ?thesis
    proof (cases "gy = h - 1 - y0")
      case True
      show ?thesis unfolding IH inner using True gx3 by (simp add: bmp_pixel24_take)
    next
      case False
      show ?thesis unfolding IH inner
        using False \<open>\<not> y0 + 1 \<le> h - 1 - gy\<close> by simp
    qed
  qed
  then show ?case unfolding step using p' by simp
qed

lemma sdiv_nonneg: "0 \<le> (m::int) \<Longrightarrow> 0 < n \<Longrightarrow> m sdiv n = m div n"
  by (simp add: signed_divide_int_def sgn_if)

lemma row_size_bounds:
  fixes m :: int
  assumes "0 \<le> m"
  shows "m \<le> ((m + 31) div 32) * 32" "0 \<le> ((m + 31) div 32) * 4"
    "((m + 31) div 32) * 4 \<le> m + 31"
proof -
  define q where "q = (m + 31) div 32"
  define r where "r = (m + 31) mod 32"
  have e: "m + 31 = 32 * q + r" unfolding q_def r_def by simp
  have r: "0 \<le> r" "r < 32" unfolding r_def by simp_all
  have q: "0 \<le> q" unfolding q_def using assms by simp
  show "m \<le> ((m + 31) div 32) * 32" unfolding q_def[symmetric] using e r by linarith
  show "0 \<le> ((m + 31) div 32) * 4" unfolding q_def[symmetric] using q by simp
  show "((m + 31) div 32) * 4 \<le> m + 31" unfolding q_def[symmetric] using e r q by linarith
qed

lemma row_size_ge:
  fixes w k :: int
  assumes "0 \<le> w" "k = 24 \<or> k = 32"
  shows "(k sdiv 8) * w \<le> ((k * w + 31) sdiv 32) * 4" "0 \<le> ((k * w + 31) sdiv 32) * 4"
    "((k * w + 31) sdiv 32) * 4 \<le> k * w + 31"
proof -
  define m where "m = k * w"
  have m: "0 \<le> m" using assms by (auto simp: m_def)
  have s: "(m + 31) sdiv 32 = (m + 31) div 32" using m by (intro sdiv_nonneg) auto
  have k8: "8 * ((k sdiv 8) * w) = m" using assms(2) by (auto simp: bpp_sdiv m_def)
  have "8 * ((k sdiv 8) * w) \<le> 8 * (((m + 31) div 32) * 4)"
    unfolding k8 using row_size_bounds(1)[OF m] by simp
  then show "(k sdiv 8) * w \<le> ((k * w + 31) sdiv 32) * 4"
    unfolding m_def[symmetric] s by (simp add: mult.commute)
  show "0 \<le> ((k * w + 31) sdiv 32) * 4"
    unfolding m_def[symmetric] s by (rule row_size_bounds(2)[OF m])
  show "((k * w + 31) sdiv 32) * 4 \<le> k * w + 31"
    unfolding m_def[symmetric] s by (rule row_size_bounds(3)[OF m])
qed

lemma le_int_take:
  assumes "i + 3 < n"
  shows "le_int32 (take n bytes) i = le_int32 bytes i" "le_int16 (take n bytes) i = le_int16 bytes i"
  using assms by (simp_all add: le_int32_def le_int16_def)

lemma sint32_range: "- (2 ^ 31) \<le> sint (x :: 32 word)" "sint x < 2 ^ 31"
  using sint_ge[of x] sint_lt[of x] by simp_all

lemma le_int32_range: "- (2 ^ 31) \<le> le_int32 buf i" "le_int32 buf i < 2 ^ 31"
  unfolding le_int32_def by (rule sint32_range)+

lemma read_header_full:
  assumes "54 \<le> length bytes"
  shows "fst (read_header uninit bytes) = take 54 bytes"
        "snd (read_header uninit bytes) = drop 54 bytes"
  using assms by (simp_all add: read_header_def fread_full)

text \<open>What the decoder does once the header is accepted.\<close>

lemma image_load_bmp_accepted:
  assumes f: "fs filename = Some bytes" "54 \<le> length bytes"
    and m: "bytes ! 0 = 0x42" "bytes ! 1 = 0x4D"
    and hd: "le_int32 bytes 18 = w" "le_int32 bytes 22 = h" "le_int16 bytes 28 = bpp"
    and bpp: "bpp = 24 \<or> bpp = 32"
    and dims: "0 \<le> w" "- (2 ^ 31) < h" "w * \<bar>h\<bar> < 2 ^ 31" "bpp * w + 31 < 2 ^ 31"
    and rs: "rs = ((bpp * w + 31) sdiv 32) * 4"
    and heap: "sizeof_Image + 4 * (w * \<bar>h\<bar>) + rs \<le> heap"
  shows "0 \<le> rs" "rs < 2 ^ 31" "(bpp sdiv 8) * w \<le> rs"
    "image_load_bmp uninit heap fs filename =
       (case bmp_row_loop bpp h w \<bar>h\<bar> rs 0 (Some (map uninit [0..<nat (w * \<bar>h\<bar>)]))
               (Some (map (\<lambda>i. ucast (uninit i)) [0..<nat rs])) (drop 54 bytes) of
          Inl e \<Rightarrow> Inl e
        | Inr pxs' \<Rightarrow> Inr (Some \<lparr>img_width = w, img_height = \<bar>h\<bar>,
                                  pixels = (case pxs' of None \<Rightarrow> [] | Some p \<Rightarrow> p)\<rparr>))"
proof -
  show rs0: "0 \<le> rs" and rsk: "(bpp sdiv 8) * w \<le> rs"
    unfolding rs using row_size_ge[OF dims(1) bpp] by simp_all
  have "rs \<le> bpp * w + 31" unfolding rs using row_size_ge[OF dims(1) bpp] by simp
  then show rs1: "rs < 2 ^ 31" using dims(4) by simp
  have n0: "0 \<le> w * \<bar>h\<bar>" using dims(1) by simp
  have "h < 2 ^ 31" using le_int32_range(2)[of bytes 22] hd(2) by simp
  then have wh: "wrap32 \<bar>h\<bar> = \<bar>h\<bar>" using dims(2) by (intro wrap32_id) auto
  have wn: "wrap32 (w * \<bar>h\<bar>) = w * \<bar>h\<bar>" using n0 dims(3) by (intro wrap32_id) auto
  have bw0: "0 \<le> bpp * w" using bpp dims(1) by auto
  have w1: "wrap32 (bpp * w) = bpp * w" using bw0 dims(4) by (intro wrap32_id) auto
  have w2: "wrap32 (bpp * w + 31) = bpp * w + 31" using bw0 dims(4) by (intro wrap32_id) auto
  have w3: "wrap32 (((bpp * w + 31) sdiv 32) * 4) = rs"
    unfolding rs[symmetric] using rs0 rs1 by (intro wrap32_id) auto
  have mw: "malloc_words uninit (heap - sizeof_Image) (w * \<bar>h\<bar>) =
              Some (map uninit [0..<nat (w * \<bar>h\<bar>)])"
    using n0 heap rs0 by (simp add: malloc_words_def)
  have mb: "malloc_bytes uninit (heap - sizeof_Image - 4 * int (length (map uninit [0..<nat (w * \<bar>h\<bar>)]))) rs =
              Some (map (\<lambda>i. ucast (uninit i)) [0..<nat rs])"
    using n0 heap rs0 by (simp add: malloc_bytes_def)
  have hp: "\<not> heap < sizeof_Image" using heap n0 rs0 by simp
  show "image_load_bmp uninit heap fs filename =
       (case bmp_row_loop bpp h w \<bar>h\<bar> rs 0 (Some (map uninit [0..<nat (w * \<bar>h\<bar>)]))
               (Some (map (\<lambda>i. ucast (uninit i)) [0..<nat rs])) (drop 54 bytes) of
          Inl e \<Rightarrow> Inl e
        | Inr pxs' \<Rightarrow> Inr (Some \<lparr>img_width = w, img_height = \<bar>h\<bar>,
                                  pixels = (case pxs' of None \<Rightarrow> [] | Some p \<Rightarrow> p)\<rparr>))"
  proof -
    have t: "take 54 bytes ! 0 = 0x42" "take 54 bytes ! 1 = 0x4D"
      "le_int32 (take 54 bytes) 18 = w" "le_int32 (take 54 bytes) 22 = h"
      "le_int16 (take 54 bytes) 28 = bpp"
      using m hd by (simp_all add: le_int_take)
    have c: "(0x42 \<noteq> (0x42::u8) \<or> 0x4D \<noteq> (0x4D::u8)) = False"
      "(bpp \<noteq> 24 \<and> bpp \<noteq> 32) = False" "(heap < sizeof_Image) = False"
      using bpp hp by auto
    have l: "int (length (map uninit [0..<nat (w * \<bar>h\<bar>)])) = w * \<bar>h\<bar>"
      using n0 by simp
    show ?thesis
      unfolding image_load_bmp_def f option.case Let_def read_header_full[OF f(2)] t c if_False
        wh wn w1 w2 w3 mw option.case mb[unfolded l] l ..
  qed
qed




text \<open>
  C7. For a 24-bit BMP file with positive width \<open>w\<close> and positive height \<open>h\<close> in its
  header, rows of \<open>rs = ((24 * w + 31) / 32) * 4\<close> bytes, and sizes that fit,
  \<open>image_load_bmp\<close> returns an image of width \<open>w\<close> and height \<open>h\<close> whose pixel at
  \<open>(x, y)\<close> is made of the three bytes of the file at \<open>54 + rs * (h - 1 - y) + 3 * x\<close>, read as
  B, G, R, with the alpha channel 255. The rows are taken from byte 54 of the file on,
  whatever the header field \<^verbatim>\<open>bfOffBits\<close> (bytes 10 to 13) gives as the place of the pixel
  data: the image is the picture of the file only when that field is 54. The file
  \<open>bmp_corners_gap\<close>, with \<^verbatim>\<open>bfOffBits = 58\<close> and the pixel data of \<open>bmp_corners\<close> behind
  four other bytes, is decoded to four colors that are not those of its corners.
\<close>

theorem image_load_bmp_24_ignores_offset:
  assumes "fs filename = Some bytes"
    and "bytes ! 0 = 0x42" "bytes ! 1 = 0x4D"
    and "le_int32 bytes 18 = w" "le_int32 bytes 22 = h" "le_int16 bytes 28 = 24"
    and "0 < w" "0 < h" "w * h < 2 ^ 31" "24 * w + 31 < 2 ^ 31"
    and "rs = nat (((24 * w + 31) sdiv 32) * 4)"
    and "54 + rs * nat h \<le> length bytes"
    and "sizeof_Image + 4 * (w * h) + int rs \<le> heap"
  shows "\<exists>img. image_load_bmp uninit heap fs filename = Inr (Some img) \<and>
           img_width img = w \<and> img_height img = h \<and> length (pixels img) = nat (w * h) \<and>
           (\<forall>x y. 0 \<le> x \<and> x < w \<and> 0 \<le> y \<and> y < h \<longrightarrow>
              pixels img ! nat (y * w + x) =
                bmp_pixel24 bytes (54 + rs * nat (h - 1 - y) + nat (3 * x)))"
proof -
  define pxs0 where "pxs0 = map uninit [0..<nat (w * h)]"
  define row0 :: "u8 list" where "row0 = map (\<lambda>i. ucast (uninit i)) [0..<rs]"
  have len54: "54 \<le> length bytes" using assms(12) by simp
  have ah: "\<bar>h\<bar> = h" using assms(8) by simp
  have bpp: "(24::int) = 24 \<or> (24::int) = 32" by simp
  have w0: "0 \<le> w" using assms(7) by simp
  have rsi: "int rs = ((24 * w + 31) sdiv 32) * 4"
    unfolding assms(11) using row_size_ge(2)[OF w0 bpp] by simp
  have h1: "- (2 ^ 31) < h" using assms(8) by simp
  have heap: "sizeof_Image + 4 * (w * \<bar>h\<bar>) + int rs \<le> heap" using assms(13) ah by simp
  have d3: "w * \<bar>h\<bar> < 2 ^ 31" using assms(9) ah by simp
  note a = image_load_bmp_accepted[where fs = fs and filename = filename and bytes = bytes
      and w = w and h = h and bpp = 24 and rs = "int rs" and heap = heap,
      OF assms(1) len54 assms(2,3,4,5,6) bpp w0 h1 d3 assms(10) rsi heap]
  have rs3: "nat (3 * w) \<le> rs" using a(3) by (simp add: bpp_sdiv)
  have "\<exists>p'. bmp_row_loop 24 h w h (int rs) 0 (Some pxs0) (Some row0) (drop 54 bytes) =
          Inr (Some p') \<and> length p' = length pxs0"
    by (rule bmp_row_loop_total[OF bpp w0 _ assms(9)])
       (use a(2,3) assms(8) in \<open>simp_all add: pxs0_def row0_def\<close>)
  then obtain p' where p': "bmp_row_loop 24 h w h (int rs) 0 (Some pxs0) (Some row0)
      (drop 54 bytes) = Inr (Some p')" "length p' = nat (w * h)"
    by (auto simp: pxs0_def)
  define img where "img = \<lparr>img_width = w, img_height = h, pixels = p'\<rparr>"
  have load: "image_load_bmp uninit heap fs filename = Inr (Some img)"
    unfolding a(4) ah nat_int pxs0_def[symmetric] row0_def[symmetric] p' img_def by simp
  have px: "pixels img ! nat (y * w + x) = bmp_pixel24 bytes (54 + rs * nat (h - 1 - y) + nat (3 * x))"
    if xy: "0 \<le> x" "x < w" "0 \<le> y" "y < h" for x y
  proof -
    have "\<exists>q. bmp_row_loop 24 h w h (int rs) 0 (Some pxs0) (Some row0) (drop 54 bytes) =
             Inr (Some q) \<and> length q = length pxs0 \<and>
           q ! nat (y * w + x) =
           (if 0 \<le> h - 1 - y then bmp_pixel24 (drop 54 bytes) (rs * nat (h - 1 - y - 0) + nat (3 * x))
            else pxs0 ! nat (y * w + x))"
      by (rule bmp_row_loop_nth[OF assms(8,7,9) rs3 a(2)])
         (use assms(8,12) xy in \<open>simp_all add: pxs0_def row0_def\<close>)
    then have "p' ! nat (y * w + x) =
            bmp_pixel24 (drop 54 bytes) (rs * nat (h - 1 - y) + nat (3 * x))"
      unfolding p' using xy by auto
    moreover have "Suc (nat (h - 1 - y)) \<le> nat h" using xy by simp
    then have "rs * Suc (nat (h - 1 - y)) \<le> rs * nat h" by (rule mult_le_mono2)
    then have "54 + (rs * nat (h - 1 - y) + nat (3 * x)) + 2 < length bytes"
      using assms(12) rs3 xy by simp
    then have "bmp_pixel24 (drop 54 bytes) (rs * nat (h - 1 - y) + nat (3 * x))
             = bmp_pixel24 bytes (54 + (rs * nat (h - 1 - y) + nat (3 * x)))"
      by (rule bmp_pixel24_drop)
    ultimately show ?thesis by (simp add: add.assoc img_def)
  qed
  have "img_width img = w" "img_height img = h" "length (pixels img) = nat (w * h)"
    by (simp_all add: img_def p')
  with load px show ?thesis by blast
qed

theorem image_load_bmp_24_ignores_offset_witness:
  "le_int32 bmp_corners_gap 10 = 58 \<and> drop 58 bmp_corners_gap = drop 54 bmp_corners \<and>
   image_load_bmp (\<lambda>i. 0) (2 ^ 20) [''gap.bmp'' \<mapsto> bmp_corners_gap] ''gap.bmp'' =
     Inr (Some \<lparr>img_width = 2, img_height = 2,
                 pixels = [0xFF00FFFF, 0xFF000000, 0xFFCCBBAA, 0xFF00FFDD]\<rparr>) \<and>
   image_load_bmp (\<lambda>i. 0) (2 ^ 20) [''corners.bmp'' \<mapsto> bmp_corners] ''corners.bmp'' =
     Inr (Some \<lparr>img_width = 2, img_height = 2,
                 pixels = [0xFFFF0000, 0xFF00FF00, 0xFF0000FF, 0xFFFFFFFF]\<rparr>)"
proof -
  have rs: "(8::nat) = nat (((24 * 2 + 31) sdiv 32) * 4)"
    by (simp add: signed_divide_int_def)
  have off: "le_int32 bmp_corners_gap 10 = 58" "drop 58 bmp_corners_gap = drop 54 bmp_corners"
    by (simp_all add: bmp_corners_gap_def bmp_corners_def le_int32_def)
  have dec: "image_load_bmp (\<lambda>i. 0) (2 ^ 20) [name \<mapsto> bytes] name =
     Inr (Some \<lparr>img_width = 2, img_height = 2,
                 pixels = [bmp_pixel24 bytes 62, bmp_pixel24 bytes 65,
                           bmp_pixel24 bytes 54, bmp_pixel24 bytes 57]\<rparr>)"
    if nths: "bytes ! 0 = 0x42" "bytes ! 1 = 0x4D"
      "le_int32 bytes 18 = 2" "le_int32 bytes 22 = 2" "le_int16 bytes 28 = 24"
      and len: "70 \<le> length bytes" for name bytes
  proof -
    obtain img where img: "image_load_bmp (\<lambda>i. 0) (2 ^ 20) [name \<mapsto> bytes] name = Inr (Some img)"
      "img_width img = 2" "img_height img = 2" "length (pixels img) = nat (2 * 2)"
      and px: "\<And>x y. 0 \<le> x \<and> x < 2 \<and> 0 \<le> y \<and> y < 2 \<Longrightarrow>
           pixels img ! nat (y * 2 + x) = bmp_pixel24 bytes (54 + 8 * nat (2 - 1 - y) + nat (3 * x))"
      using image_load_bmp_24_ignores_offset[of "[name \<mapsto> bytes]" name bytes 2 2 8 "2 ^ 20"
          "\<lambda>i. 0", OF _ nths _ _ _ _ rs] len
      by (auto simp: sizeof_Image_def)
    have p: "pixels img ! 0 = bmp_pixel24 bytes 62" "pixels img ! 1 = bmp_pixel24 bytes 65"
          "pixels img ! 2 = bmp_pixel24 bytes 54" "pixels img ! 3 = bmp_pixel24 bytes 57"
      using px[of 0 0] px[of 1 0] px[of 0 1] px[of 1 1] by simp_all
    have "pixels img = [bmp_pixel24 bytes 62, bmp_pixel24 bytes 65,
                           bmp_pixel24 bytes 54, bmp_pixel24 bytes 57]"
      using img(4) p by (intro nth_equalityI) (auto simp: less_Suc_eq numeral_eq_Suc)
    with img show ?thesis by (cases img) simp
  qed
  have g: "bmp_corners_gap ! 0 = 0x42" "bmp_corners_gap ! 1 = 0x4D"
    "le_int32 bmp_corners_gap 18 = 2" "le_int32 bmp_corners_gap 22 = 2"
    "le_int16 bmp_corners_gap 28 = 24" "70 \<le> length bmp_corners_gap"
    by (simp_all add: bmp_corners_gap_def le_int32_def le_int16_def)
  have c: "bmp_corners ! 0 = 0x42" "bmp_corners ! 1 = 0x4D"
    "le_int32 bmp_corners 18 = 2" "le_int32 bmp_corners 22 = 2"
    "le_int16 bmp_corners 28 = 24" "70 \<le> length bmp_corners"
    by (simp_all add: bmp_corners_def le_int32_def le_int16_def)
  have pg: "bmp_pixel24 bmp_corners_gap 62 = 0xFF00FFFF" "bmp_pixel24 bmp_corners_gap 65 = 0xFF000000"
    "bmp_pixel24 bmp_corners_gap 54 = 0xFFCCBBAA" "bmp_pixel24 bmp_corners_gap 57 = 0xFF00FFDD"
    by (simp_all add: bmp_pixel24_def bmp_corners_gap_def)
  have pc: "bmp_pixel24 bmp_corners 62 = 0xFFFF0000" "bmp_pixel24 bmp_corners 65 = 0xFF00FF00"
    "bmp_pixel24 bmp_corners 54 = 0xFF0000FF" "bmp_pixel24 bmp_corners 57 = 0xFFFFFFFF"
    by (simp_all add: bmp_pixel24_def bmp_corners_def)
  show ?thesis
    using dec[OF g] dec[OF c] off unfolding pg pc by simp
qed

end
